theory Spec2Isabelle
  imports Main
begin

section \<open>The repeat\_action tool: parameters, collaborators and state\<close>

text \<open>
  The development embeds \<^verbatim>\<open>repeatAction.ts\<close>: the \<^verbatim>\<open>handle\<close> function of the
  \<^verbatim>\<open>repeat_action\<close> tool with its three closures \<^verbatim>\<open>runAction\<close>,
  \<^verbatim>\<open>evaluateCondition\<close> and \<^verbatim>\<open>loopStart\<close>.

  The parsed parameters keep the field names of the source. The string-valued tags
  (\<^verbatim>\<open>loop.type\<close>, \<^verbatim>\<open>action.type\<close>, \<^verbatim>\<open>assertion.assertionType\<close>) stay strings and are
  compared with the literals the source compares them with, so the \<^verbatim>\<open>default\<close> branches
  of the source are branches of the model. Optional fields are options:
  \<^verbatim>\<open>typeof loop.iterations !== 'number'\<close>, \<^verbatim>\<open>!loop.until\<close> and
  \<^verbatim>\<open>action.value === undefined\<close> are the tests for \<open>None\<close>. Numbers are integers of
  any sign: the schema that parses the raw parameters (\<^verbatim>\<open>repeatActionSchema\<close>) is not part of
  the source file, and the model starts from the parameters it has parsed.
\<close>

record assertion =
  assertionType :: string

record until =
  until_element :: string
  until_ref :: string
  until_assertion :: assertion
  negate :: bool

record loop =
  loop_type :: string
  iterations :: "int option"
  until :: "until option"

record action =
  action_type :: string
  action_ref :: string
  action_element :: string
  action_value :: "string option"

record limits =
  limits_maxIterations :: "int option"

record params =
  loop :: loop
  action :: action
  limits :: "limits option"

text \<open>
  Modelled from the spec: the failures with which a collaborator call may reject
  (\<^verbatim>\<open>tab.refLocator\<close> and the locator's methods are not part of the source file).
  The engine never inspects them; it only lets them propagate.
\<close>

datatype failure = NotFoundError | ActionError

text \<open>
  What an invocation can throw: \<open>Error msg\<close> is \<^verbatim>\<open>throw new Error(msg)\<close> of the source
  itself, \<open>Thrown f\<close> is a rejection of a collaborator call, propagated unchanged.
\<close>

datatype error = Error string | Thrown failure

text \<open>
  The collaborators are parameters of the model. \<open>'w\<close> is the state of everything
  outside the engine (the page, the clock), \<open>'l\<close> the type of locators. Every awaited call
  takes the world, may change it, and either resolves with a value or rejects.
  \<^verbatim>\<open>Date.now()\<close> reads the clock of the world; \<^verbatim>\<open>sleep(ms)\<close> lets the world move on.
  \<^verbatim>\<open>ELEMENT_ATTACHED_TIMEOUT\<close> is a constant imported by the source and is a parameter too.
\<close>

record ('w, 'l) host =
  refLocator :: "string \<Rightarrow> string \<Rightarrow> 'w \<Rightarrow> (failure + 'l) \<times> 'w"
  click :: "'l \<Rightarrow> 'w \<Rightarrow> (failure + unit) \<times> 'w"
  hover :: "'l \<Rightarrow> 'w \<Rightarrow> (failure + unit) \<times> 'w"
  fill :: "'l \<Rightarrow> string \<Rightarrow> 'w \<Rightarrow> (failure + unit) \<times> 'w"
  press :: "'l \<Rightarrow> string \<Rightarrow> 'w \<Rightarrow> (failure + unit) \<times> 'w"
  isVisible :: "'l \<Rightarrow> 'w \<Rightarrow> (failure + bool) \<times> 'w"
  isHidden :: "'l \<Rightarrow> 'w \<Rightarrow> (failure + bool) \<times> 'w"
  isEnabled :: "'l \<Rightarrow> 'w \<Rightarrow> (failure + bool) \<times> 'w"
  isDisabled :: "'l \<Rightarrow> 'w \<Rightarrow> (failure + bool) \<times> 'w"
  Date_now :: "'w \<Rightarrow> int"
  sleep :: "int \<Rightarrow> 'w \<Rightarrow> 'w"
  ELEMENT_ATTACHED_TIMEOUT :: int

text \<open>
  Every call that leaves the engine is logged in the order the calls are made, each with
  what came back. \<open>RefLocator ref element\<close> is \<^verbatim>\<open>tab.refLocator\<close>, \<open>DateNow\<close> is
  \<^verbatim>\<open>Date.now()\<close>, the others are the methods of the locator. A call is \<open>Rejected\<close> with a
  failure, or it is \<open>Resolved\<close> (with a locator or with nothing), or it has \<open>Returned\<close> a
  boolean, or it has read the \<open>Time\<close>.
\<close>

datatype call =
    RefLocator string string
  | Click | Hover | Fill string | Press string
  | IsVisible | IsHidden | IsEnabled | IsDisabled
  | DateNow

datatype outcome = Rejected failure | Resolved | Returned bool | Time int

fun is_interaction :: "call \<Rightarrow> bool" where
  "is_interaction Click = True"
| "is_interaction Hover = True"
| "is_interaction (Fill v) = True"
| "is_interaction (Press v) = True"
| "is_interaction c = False"

record IterationRecord =
  ev_iteration :: int
  ev_action :: action
  message :: string

text \<open>
  The mutable variables of \<^verbatim>\<open>handle\<close> that its closures update (\<^verbatim>\<open>iteration\<close>,
  \<^verbatim>\<open>evidence\<close>), together with the world and the log of calls. The state is threaded
  through every function and is returned also when the function throws, so that what
  had happened before the throw can be stated.
\<close>

record 'w state =
  iteration :: int
  evidence :: "IterationRecord list"
  world :: 'w
  calls :: "(call \<times> outcome) list"

section \<open>Number formatting\<close>

text \<open>
  A template literal prints an integer in decimal, with a minus sign when it is negative
  (JavaScript does so for integers below \<open>10\<^sup>2\<^sup>1\<close> in absolute value).
\<close>

definition digit :: "nat \<Rightarrow> char" where
  "digit d = ''0123456789'' ! d"

function decimal :: "nat \<Rightarrow> string" where
  "decimal n = (if n < 10 then [digit n] else decimal (n div 10) @ [digit (n mod 10)])"
  by pat_completeness auto
termination
  by (relation "measure id") auto

definition toString :: "int \<Rightarrow> string" where
  "toString k = (if k < 0 then CHR ''-'' # decimal (nat (- k)) else decimal (nat k))"

section \<open>Collaborator calls\<close>

text \<open>
  \<open>invoke c f out\<close> is \<^verbatim>\<open>await\<close> of the collaborator call \<open>c\<close> whose behaviour is \<open>f\<close>:
  the world moves to the one the call leaves, the call is logged (\<open>out\<close> says how a value
  is logged), and a rejection becomes a throw.
\<close>

definition invoke ::
  "call \<Rightarrow> ('w \<Rightarrow> (failure + 'a) \<times> 'w) \<Rightarrow> ('a \<Rightarrow> outcome) \<Rightarrow> 'w state
     \<Rightarrow> (error + 'a) \<times> 'w state" where
  "invoke c f out s =
     (case f (world s) of
        (Inl x, w') \<Rightarrow>
          (Inl (Thrown x), s\<lparr>world := w', calls := calls s @ [(c, Rejected x)]\<rparr>)
      | (Inr v, w') \<Rightarrow>
          (Inr v, s\<lparr>world := w', calls := calls s @ [(c, out v)]\<rparr>))"

text \<open>\<^verbatim>\<open>Date.now()\<close>: the clock of the world is read, and the reading is logged.\<close>

definition now :: "('w, 'l) host \<Rightarrow> 'w state \<Rightarrow> int \<times> 'w state" where
  "now h s =
     (Date_now h (world s), s\<lparr>calls := calls s @ [(DateNow, Time (Date_now h (world s)))]\<rparr>)"

definition await_sleep :: "('w, 'l) host \<Rightarrow> int \<Rightarrow> 'w state \<Rightarrow> 'w state" where
  "await_sleep h ms s = s\<lparr>world := sleep h ms (world s)\<rparr>"

section \<open>runAction and evaluateCondition\<close>

definition runAction ::
  "('w, 'l) host \<Rightarrow> action \<Rightarrow> 'w state \<Rightarrow> (error + unit) \<times> 'w state" where
  "runAction h a s =
     (case invoke (RefLocator (action_ref a) (action_element a))
                  (refLocator h (action_ref a) (action_element a)) (\<lambda>_. Resolved) s of
        (Inl e, s1) \<Rightarrow> (Inl e, s1)
      | (Inr locator, s1) \<Rightarrow>
          if action_type a = ''click'' then invoke Click (click h locator) (\<lambda>_. Resolved) s1
          else if action_type a = ''hover'' then invoke Hover (hover h locator) (\<lambda>_. Resolved) s1
          else if action_type a = ''fill'' then
            (case action_value a of
               None \<Rightarrow> (Inl (Error ''Fill action requires a value''), s1)
             | Some v \<Rightarrow> invoke (Fill v) (fill h locator v) (\<lambda>_. Resolved) s1)
          else if action_type a = ''press'' then
            (case action_value a of
               None \<Rightarrow> (Inl (Error ''Press action requires a value''), s1)
             | Some v \<Rightarrow> invoke (Press v) (press h locator v) (\<lambda>_. Resolved) s1)
          else (Inl (Error (''Unsupported action type: '' @ action_type a)), s1))"

definition evaluateCondition ::
  "('w, 'l) host \<Rightarrow> loop \<Rightarrow> 'w state \<Rightarrow> (error + bool) \<times> 'w state" where
  "evaluateCondition h l s =
     (case until l of
        None \<Rightarrow> (Inr False, s)
      | Some u \<Rightarrow>
          (case invoke (RefLocator (until_ref u) (until_element u))
                       (refLocator h (until_ref u) (until_element u)) (\<lambda>_. Resolved) s of
             (Inl e, s1) \<Rightarrow> (Inl e, s1)
           | (Inr locator, s1) \<Rightarrow>
               (case (if assertionType (until_assertion u) = ''toBeVisible''
                        then invoke IsVisible (isVisible h locator) Returned s1
                      else if assertionType (until_assertion u) = ''toBeHidden''
                        then invoke IsHidden (isHidden h locator) Returned s1
                      else if assertionType (until_assertion u) = ''toBeEnabled''
                        then invoke IsEnabled (isEnabled h locator) Returned s1
                      else if assertionType (until_assertion u) = ''toBeDisabled''
                        then invoke IsDisabled (isDisabled h locator) Returned s1
                      else (Inl (Error (''Unsupported assertion type: ''
                                        @ assertionType (until_assertion u))), s1)) of
                  (Inl e, s2) \<Rightarrow> (Inl e, s2)
                | (Inr result, s2) \<Rightarrow> (Inr (if negate u then \<not> result else result), s2))))"

section \<open>loopStart\<close>

text \<open>\<^verbatim>\<open>limits?.maxIterations ?? 20\<close>\<close>

definition maxIterations :: "params \<Rightarrow> int" where
  "maxIterations p =
     (case limits p of
        None \<Rightarrow> 20
      | Some l \<Rightarrow> (case limits_maxIterations l of None \<Rightarrow> 20 | Some m \<Rightarrow> m))"

text \<open>
  \<^verbatim>\<open>iteration++; evidence.push({ iteration, action, message })\<close>, the message being
  \<^verbatim>\<open>`Performed <label> iteration ${iteration}`\<close> with the label of the discipline.
\<close>

definition record_iteration :: "string \<Rightarrow> action \<Rightarrow> 'w state \<Rightarrow> 'w state" where
  "record_iteration label a s =
     (let i = iteration s + 1
      in s\<lparr>iteration := i,
            evidence := evidence s @
              [\<lparr>ev_iteration = i, ev_action = a,
                message = ''Performed '' @ label @ '' iteration '' @ toString i\<rparr>]\<rparr>)"

text \<open>How one pass through a loop body ends: at a \<^verbatim>\<open>break\<close>, or at the end of the body.\<close>

datatype flow = Break | Continue

text \<open>The body of the \<^verbatim>\<open>for\<close> loop.\<close>

definition forBody ::
  "('w, 'l) host \<Rightarrow> action \<Rightarrow> 'w state \<Rightarrow> (error + flow) \<times> 'w state" where
  "forBody h a s =
     (case runAction h a s of
        (Inl e, s1) \<Rightarrow> (Inl e, s1)
      | (Inr _, s1) \<Rightarrow> (Inr Continue, await_sleep h 300 (record_iteration ''for-loop'' a s1)))"

text \<open>The body of the \<^verbatim>\<open>while\<close> loop.\<close>

definition whileBody ::
  "('w, 'l) host \<Rightarrow> params \<Rightarrow> int \<Rightarrow> 'w state \<Rightarrow> (error + flow) \<times> 'w state" where
  "whileBody h p startTime s =
     (case evaluateCondition h (loop p) s of
        (Inl e, s1) \<Rightarrow> (Inl e, s1)
      | (Inr conditionMet, s1) \<Rightarrow>
          if conditionMet then (Inr Break, s1)
          else
            (case runAction h (action p) s1 of
               (Inl e, s2) \<Rightarrow> (Inl e, s2)
             | (Inr _, s2) \<Rightarrow>
                 (case now h (await_sleep h 100
                                (record_iteration ''while-loop'' (action p) s2)) of
                    (t, s3) \<Rightarrow>
                      if t - startTime > ELEMENT_ATTACHED_TIMEOUT h then (Inr Break, s3)
                      else (Inr Continue, s3))))"

text \<open>The body of the \<^verbatim>\<open>do ... while (true)\<close> loop.\<close>

definition doWhileBody ::
  "('w, 'l) host \<Rightarrow> params \<Rightarrow> int \<Rightarrow> 'w state \<Rightarrow> (error + flow) \<times> 'w state" where
  "doWhileBody h p startTime s =
     (case runAction h (action p) s of
        (Inl e, s1) \<Rightarrow> (Inl e, s1)
      | (Inr _, s1) \<Rightarrow>
          (case evaluateCondition h (loop p)
                  (await_sleep h 100 (record_iteration ''do-while'' (action p) s1)) of
             (Inl e, s2) \<Rightarrow> (Inl e, s2)
           | (Inr conditionMet, s2) \<Rightarrow>
               if conditionMet then (Inr Break, s2)
               else if iteration s2 \<ge> maxIterations p then (Inr Break, s2)
               else
                 (case now h s2 of
                    (t, s3) \<Rightarrow>
                      if t - startTime > ELEMENT_ATTACHED_TIMEOUT h then (Inr Break, s3)
                      else (Inr Continue, s3))))"

text \<open>What the bodies leave alone: they never reset the counter, and a body that asks for
  another pass has counted exactly one iteration.\<close>

lemma invoke_iteration: "invoke c f out s = (r, s') \<Longrightarrow> iteration s' = iteration s"
  by (auto simp: invoke_def split: prod.splits sum.splits)

lemma now_iteration: "now h s = (t, s') \<Longrightarrow> iteration s' = iteration s"
  by (auto simp: now_def)

lemma runAction_iteration: "runAction h a s = (r, s') \<Longrightarrow> iteration s' = iteration s"
  by (auto simp: runAction_def split: prod.splits sum.splits if_splits option.splits
           dest!: invoke_iteration)

lemma evaluateCondition_iteration:
  "evaluateCondition h l s = (r, s') \<Longrightarrow> iteration s' = iteration s"
  by (auto simp: evaluateCondition_def split: prod.splits sum.splits if_splits option.splits
           dest!: invoke_iteration)

lemma await_sleep_iteration: "iteration (await_sleep h ms s) = iteration s"
  by (simp add: await_sleep_def)

lemma record_iteration_iteration: "iteration (record_iteration lbl a s) = iteration s + 1"
  by (simp add: record_iteration_def Let_def)

lemma forBody_iteration:
  "forBody h a s = (Inr fl, s') \<Longrightarrow> iteration s' = iteration s + 1"
  by (auto simp: forBody_def await_sleep_iteration record_iteration_iteration
           split: prod.splits sum.splits dest!: runAction_iteration)

lemma whileBody_iteration:
  "whileBody h p st s = (Inr Continue, s') \<Longrightarrow> iteration s' = iteration s + 1"
  by (auto simp: whileBody_def Let_def await_sleep_iteration record_iteration_iteration
           split: prod.splits sum.splits if_splits
           dest!: runAction_iteration evaluateCondition_iteration now_iteration)

lemma doWhileBody_iteration:
  "doWhileBody h p st s = (Inr fl, s') \<Longrightarrow> iteration s' = iteration s + 1"
  by (auto simp: doWhileBody_def await_sleep_iteration record_iteration_iteration
           split: prod.splits sum.splits if_splits
           dest!: runAction_iteration evaluateCondition_iteration now_iteration)

lemma doWhileBody_Continue:
  "doWhileBody h p st s = (Inr Continue, s') \<Longrightarrow> iteration s' < maxIterations p"
  by (auto simp: doWhileBody_def split: prod.splits sum.splits if_splits
           dest!: now_iteration)

lemma doWhileBody_decreases:
  assumes "(Inr Continue, s') = doWhileBody h p st s"
  shows "iteration s < maxIterations p \<and> iteration s < iteration s'"
  using doWhileBody_iteration [OF assms [symmetric]] doWhileBody_Continue [OF assms [symmetric]]
  by simp

text \<open>\<^verbatim>\<open>while (iteration < loop.iterations!) { ... }\<close>\<close>

function forLoop ::
  "('w, 'l) host \<Rightarrow> action \<Rightarrow> int \<Rightarrow> 'w state \<Rightarrow> (error + unit) \<times> 'w state" where
  "forLoop h a n s =
     (if iteration s < n then
        (case forBody h a s of
           (Inl e, s') \<Rightarrow> (Inl e, s')
         | (Inr Break, s') \<Rightarrow> (Inr (), s')
         | (Inr Continue, s') \<Rightarrow> forLoop h a n s')
      else (Inr (), s))"
  by pat_completeness auto
termination
  by (relation "measure (\<lambda>(h, a, n, s). nat (n - iteration s))")
     (auto dest!: forBody_iteration [OF sym])

text \<open>\<^verbatim>\<open>while (iteration < maxIterations) { ... }\<close>\<close>

function whileLoop ::
  "('w, 'l) host \<Rightarrow> params \<Rightarrow> int \<Rightarrow> 'w state \<Rightarrow> (error + unit) \<times> 'w state" where
  "whileLoop h p startTime s =
     (if iteration s < maxIterations p then
        (case whileBody h p startTime s of
           (Inl e, s') \<Rightarrow> (Inl e, s')
         | (Inr Break, s') \<Rightarrow> (Inr (), s')
         | (Inr Continue, s') \<Rightarrow> whileLoop h p startTime s')
      else (Inr (), s))"
  by pat_completeness auto
termination
  by (relation "measure (\<lambda>(h, p, st, s). nat (maxIterations p - iteration s))")
     (auto dest!: whileBody_iteration [OF sym])

text \<open>\<^verbatim>\<open>do { ... } while (true)\<close>: the body is entered without any test.\<close>

function doWhileLoop ::
  "('w, 'l) host \<Rightarrow> params \<Rightarrow> int \<Rightarrow> 'w state \<Rightarrow> (error + unit) \<times> 'w state" where
  "doWhileLoop h p startTime s =
     (case doWhileBody h p startTime s of
        (Inl e, s') \<Rightarrow> (Inl e, s')
      | (Inr Break, s') \<Rightarrow> (Inr (), s')
      | (Inr Continue, s') \<Rightarrow> doWhileLoop h p startTime s')"
  by pat_completeness auto
termination
  by (relation "measure (\<lambda>(h, p, st, s). nat (maxIterations p - iteration s))")
     (simp_all add: doWhileBody_decreases)

text \<open>
  The \<^verbatim>\<open>if / else if\<close> chain of \<^verbatim>\<open>loopStart\<close>. With \<^verbatim>\<open>loop.iterations\<close> undefined the
  comparison \<^verbatim>\<open>iteration < undefined\<close> is false and the \<^verbatim>\<open>for\<close> loop is not entered.
\<close>

definition loopStart ::
  "('w, 'l) host \<Rightarrow> params \<Rightarrow> int \<Rightarrow> 'w state \<Rightarrow> (error + unit) \<times> 'w state" where
  "loopStart h p startTime s =
     (if loop_type (loop p) = ''for'' then
        (case iterations (loop p) of
           Some n \<Rightarrow> forLoop h (action p) n s
         | None \<Rightarrow> (Inr (), s))
      else if loop_type (loop p) = ''while'' then whileLoop h p startTime s
      else if loop_type (loop p) = ''do-while'' then doWhileLoop h p startTime s
      else (Inr (), s))"

section \<open>The handler\<close>

text \<open>
  Modelled from the spec: \<^verbatim>\<open>tab.waitForCompletion\<close> belongs to the hosting tab and is not
  part of the source file. It is the outer scope around the whole loop execution: it runs the
  callback once and resolves when the callback has, or rejects with what the callback threw.
\<close>

definition waitForCompletion ::
  "('w state \<Rightarrow> (error + unit) \<times> 'w state) \<Rightarrow> 'w state \<Rightarrow> (error + unit) \<times> 'w state" where
  "waitForCompletion callback s = callback s"

record check =
  property :: string
  operator :: string
  expected :: string
  actual :: int
  result :: string

record summary =
  total :: int
  passed :: int
  failed :: int
  status :: string
  summary_evidence :: "IterationRecord list"

record toolResponse =
  response_action :: action
  response_loop :: loop
  response_summary :: summary
  checks :: "check list"

text \<open>The object \<^verbatim>\<open>toolResponse\<close>, built from the final values of the variables.\<close>

definition toolResponse :: "params \<Rightarrow> 'w state \<Rightarrow> toolResponse" where
  "toolResponse p s =
     \<lparr>response_action = action p,
      response_loop = loop p,
      response_summary =
        \<lparr>total = iteration s,
         passed = (if iteration s > 0 then 1 else 0),
         failed = (if iteration s > 0 then 0 else 1),
         status = (if iteration s > 0 then ''pass'' else ''fail''),
         summary_evidence = evidence s\<rparr>,
      checks =
        [\<lparr>property = ''action-execution'',
          operator = loop_type (loop p),
          expected =
            (if loop_type (loop p) = ''for''
             then (case iterations (loop p) of
                     Some n \<Rightarrow> toString n
                   | None \<Rightarrow> ''undefined'') @ '' iterations''
             else ''condition met or maxIterations reached''),
          actual = iteration s,
          result = (if iteration s > 0 then ''pass'' else ''fail'')\<rparr>]\<rparr>"

text \<open>
  The state in which \<^verbatim>\<open>handle\<close> has initialised its variables, in the world \<open>w\<close>:
  \<^verbatim>\<open>evidence = []\<close>, \<^verbatim>\<open>startTime = Date.now()\<close>, \<^verbatim>\<open>iteration = 0\<close>.
\<close>

definition initial :: "('w, 'l) host \<Rightarrow> 'w \<Rightarrow> int \<times> 'w state" where
  "initial h w = now h \<lparr>iteration = 0, evidence = [], world = w, calls = []\<rparr>"

text \<open>
  \<^verbatim>\<open>handle\<close>, from the parsed parameters on: \<open>w\<close> is the world in which the tool is invoked.
  The result is the response handed to \<^verbatim>\<open>response.addTextResult\<close> (before it is printed as
  JSON) or the error thrown, together with the state in which the invocation ends.
\<close>

definition handle ::
  "('w, 'l) host \<Rightarrow> params \<Rightarrow> 'w \<Rightarrow> (error + toolResponse) \<times> 'w state" where
  "handle h p w =
     (case initial h w of
        (startTime, s) \<Rightarrow>
         if loop_type (loop p) = ''for'' \<and> iterations (loop p) = None then
           (Inl (Error (''repeat_action: '' @ [CHR 0x22] @ ''iterations'' @ [CHR 0x22]
                        @ '' is required when loop.type is '' @ [CHR 0x22] @ ''for''
                        @ [CHR 0x22])), s)
         else if (loop_type (loop p) = ''while'' \<or> loop_type (loop p) = ''do-while'')
                 \<and> until (loop p) = None then
           (Inl (Error (''repeat_action: '' @ [CHR 0x22] @ ''until'' @ [CHR 0x22]
                        @ '' condition is required when loop.type is '' @ [CHR 0x22]
                        @ loop_type (loop p) @ [CHR 0x22])), s)
         else
           (case waitForCompletion (loopStart h p startTime) s of
              (Inl e, s') \<Rightarrow> (Inl e, s')
            | (Inr _, s') \<Rightarrow> (Inr (toolResponse p s'), s')))"

section \<open>Reading the log\<close>

text \<open>
  What a run has done is read off its log. \<open>rejections\<close> are the calls that were rejected,
  \<open>actions\<close> the calls of a locator's interaction method (the actions attempted),
  \<open>performed\<close> those of them that resolved (the actions completed). \<open>answers\<close> are the
  booleans the queries returned, \<open>conditions u\<close> the values the stop condition \<open>u\<close> took
  from them (\<^verbatim>\<open>negate ? !result : result\<close>), and \<open>readings\<close> the times the clock showed,
  all in the order of the log.
\<close>

fun is_rejected :: "outcome \<Rightarrow> bool" where
  "is_rejected (Rejected x) = True"
| "is_rejected out = False"

fun answer :: "outcome \<Rightarrow> bool list" where
  "answer (Returned b) = [b]"
| "answer out = []"

fun reading :: "outcome \<Rightarrow> int list" where
  "reading (Time t) = [t]"
| "reading out = []"

definition rejections :: "(call \<times> outcome) list \<Rightarrow> (call \<times> outcome) list" where
  "rejections cs = filter (\<lambda>x. is_rejected (snd x)) cs"

definition actions :: "(call \<times> outcome) list \<Rightarrow> (call \<times> outcome) list" where
  "actions cs = filter (\<lambda>x. is_interaction (fst x)) cs"

definition performed :: "(call \<times> outcome) list \<Rightarrow> (call \<times> outcome) list" where
  "performed cs = filter (\<lambda>x. is_interaction (fst x) \<and> snd x = Resolved) cs"

definition answers :: "(call \<times> outcome) list \<Rightarrow> bool list" where
  "answers cs = concat (map (\<lambda>x. answer (snd x)) cs)"

definition readings :: "(call \<times> outcome) list \<Rightarrow> int list" where
  "readings cs = concat (map (\<lambda>x. reading (snd x)) cs)"

definition conditions :: "until \<Rightarrow> (call \<times> outcome) list \<Rightarrow> bool list" where
  "conditions u cs = map (\<lambda>result. if negate u then \<not> result else result) (answers cs)"

text \<open>
  What a claim assumes of a run is said of its log: the stop condition \<open>u\<close> was never met
  (no evaluation gave true), or always met (no evaluation gave false); and every reading of
  the clock, the first one included, was within the timeout of the start time.
\<close>

definition never_met :: "until \<Rightarrow> (call \<times> outcome) list \<Rightarrow> bool" where
  "never_met u cs \<longleftrightarrow> True \<notin> set (conditions u cs)"

definition always_met :: "until \<Rightarrow> (call \<times> outcome) list \<Rightarrow> bool" where
  "always_met u cs \<longleftrightarrow> False \<notin> set (conditions u cs)"

definition in_time :: "('w, 'l) host \<Rightarrow> int \<Rightarrow> (call \<times> outcome) list \<Rightarrow> bool" where
  "in_time h startTime cs \<longleftrightarrow>
     list_all (\<lambda>t. t - startTime \<le> ELEMENT_ATTACHED_TIMEOUT h) (readings cs)"

section \<open>What a request asks for\<close>

text \<open>
  The actions for which \<^verbatim>\<open>runAction\<close> has a branch that does not throw, and the stop
  conditions for which \<^verbatim>\<open>evaluateCondition\<close> has a case.
\<close>

definition supported :: "action \<Rightarrow> bool" where
  "supported a \<longleftrightarrow>
     action_type a = ''click'' \<or> action_type a = ''hover'' \<or>
     (action_type a = ''fill'' \<or> action_type a = ''press'') \<and> action_value a \<noteq> None"

definition supported_assertion :: "until \<Rightarrow> bool" where
  "supported_assertion u \<longleftrightarrow>
     assertionType (until_assertion u) \<in>
       {''toBeVisible'', ''toBeHidden'', ''toBeEnabled'', ''toBeDisabled''}"




section \<open>The cycles of the while loop\<close>

text \<open>
  The states in which the cycles of a \<^verbatim>\<open>while\<close> loop start. The loop entered in \<open>s\<close> starts its
  first cycle in \<open>s\<close>; it starts a further cycle where a pass through the body, entered
  because the counter was below the cap, has ended without \<^verbatim>\<open>break\<close> and without throwing.
  \<open>while_cycle_start h p startTime n s\<close> is the state in which cycle \<open>n + 1\<close> starts, if
  the loop gets that far.
\<close>

fun while_cycle_start ::
  "('w, 'l) host \<Rightarrow> params \<Rightarrow> int \<Rightarrow> nat \<Rightarrow> 'w state \<Rightarrow> 'w state option" where
  "while_cycle_start h p startTime 0 s = Some s"
| "while_cycle_start h p startTime (Suc n) s =
     (if iteration s < maxIterations p then
        (case whileBody h p startTime s of
           (Inr Continue, s') \<Rightarrow> while_cycle_start h p startTime n s'
         | _ \<Rightarrow> None)
      else None)"

section \<open>Invariants of a run\<close>

text \<open>
  \<open>counted\<close>: the counter is the number of records, the records are numbered \<open>1, 2, ...\<close>
  in order, and there is one record for each action performed.
\<close>

definition counted :: "'w state \<Rightarrow> bool" where
  "counted s \<longleftrightarrow>
     iteration s = int (length (evidence s)) \<and>
     map ev_iteration (evidence s) = [1..iteration s] \<and>
     length (evidence s) = length (performed (calls s))"

text \<open>
  \<open>ended r\<close>: how a computation that returned \<open>r\<close> has left the log. If it threw the
  rejection of a collaborator, that rejection is the last call and the only rejected one;
  otherwise no call was rejected.
\<close>

fun thrown_last :: "error \<Rightarrow> (call \<times> outcome) list \<Rightarrow> bool" where
  "thrown_last (Thrown x) cs \<longleftrightarrow>
     cs \<noteq> [] \<and> snd (last cs) = Rejected x \<and> rejections (butlast cs) = []"
| "thrown_last (Error msg) cs \<longleftrightarrow> rejections cs = []"

definition ended :: "error + 'a \<Rightarrow> (call \<times> outcome) list \<Rightarrow> bool" where
  "ended r cs = (case r of Inl e \<Rightarrow> thrown_last e cs | Inr v \<Rightarrow> rejections cs = [])"

text \<open>
  \<open>settled\<close>: every interaction in the log either resolved or was rejected.
\<close>

definition settled :: "(call \<times> outcome) list \<Rightarrow> bool" where
  "settled cs \<longleftrightarrow> list_all (\<lambda>x. snd x = Resolved \<or> is_rejected (snd x)) (actions cs)"

text \<open>
  What a call of \<^verbatim>\<open>runAction\<close> that returned \<open>r\<close> has added to the log, and what a call of
  \<^verbatim>\<open>evaluateCondition\<close> has. An action adds one interaction when it completes and at most
  one when it does not; it throws an \<open>Error\<close> of its own only when it is not supported, before
  any interaction. A condition adds no interaction; when it returns, it has added its value.
\<close>

definition action_log :: "action \<Rightarrow> error + unit \<Rightarrow> (call \<times> outcome) list \<Rightarrow> bool" where
  "action_log a r cs \<longleftrightarrow>
     answers cs = [] \<and> readings cs = [] \<and> ended r cs \<and> settled cs \<and>
     performed cs = (if isl r then [] else actions cs) \<and>
     length (actions cs) \<le> 1 \<and> (\<not> isl r \<longrightarrow> length (actions cs) = 1) \<and>
     (\<forall>msg. r = Inl (Error msg) \<longrightarrow> \<not> supported a \<and> actions cs = [])"

definition condition_log :: "loop \<Rightarrow> error + bool \<Rightarrow> (call \<times> outcome) list \<Rightarrow> bool" where
  "condition_log l r cs \<longleftrightarrow>
     actions cs = [] \<and> readings cs = [] \<and> ended r cs \<and>
     (until l = None \<longrightarrow> r = Inr False \<and> cs = []) \<and>
     (\<forall>u. until l = Some u \<longrightarrow>
        conditions u cs = (case r of Inl e \<Rightarrow> [] | Inr v \<Rightarrow> [v]) \<and>
        (\<forall>msg. r = Inl (Error msg) \<longrightarrow> \<not> supported_assertion u))"

text \<open>
  \<open>sound r\<close>: the three together, for a state left by a computation that returned \<open>r\<close>.
  \<open>untouched\<close>: the state of a run that has completed no iteration and called no interaction
  method.
\<close>

definition sound :: "error + 'a \<Rightarrow> 'w state \<Rightarrow> bool" where
  "sound r s \<longleftrightarrow> counted s \<and> settled (calls s) \<and> ended r (calls s)"


section \<open>An example host\<close>

text \<open>
  A page to run the tool on. Its state is the number of interactions that changed the page
  and the clock in milliseconds. Every element is located except the one with
  reference \<open>gone\<close>. A click and a key press always go through; the field takes
  two inputs and then rejects the next; an interaction takes 5 ms. The dialog is visible once
  two interactions have gone through, and enabled throughout. \<^verbatim>\<open>sleep\<close> advances the clock;
  the timeout is one second.
\<close>

definition page :: "(nat \<times> int, string) host" where
  "page =
     \<lparr>refLocator = (\<lambda>r e w. if r = ''gone'' then (Inl NotFoundError, w) else (Inr r, w)),
      click = (\<lambda>l (n, t). (Inr (), (Suc n, t + 5))),
      hover = (\<lambda>l (n, t). (Inr (), (n, t + 5))),
      fill = (\<lambda>l v (n, t). if n \<ge> 2 then (Inl ActionError, (n, t)) else (Inr (), (Suc n, t + 5))),
      press = (\<lambda>l v (n, t). (Inr (), (Suc n, t + 5))),
      isVisible = (\<lambda>l (n, t). (Inr (n \<ge> 2), (n, t))),
      isHidden = (\<lambda>l (n, t). (Inr (n < 2), (n, t))),
      isEnabled = (\<lambda>l w. (Inr True, w)),
      isDisabled = (\<lambda>l w. (Inr False, w)),
      Date_now = (\<lambda>(n, t). t),
      sleep = (\<lambda>ms (n, t). (n, t + ms)),
      ELEMENT_ATTACHED_TIMEOUT = 1000\<rparr>"

definition button :: "string \<Rightarrow> string option \<Rightarrow> action" where
  "button ty v =
     \<lparr>action_type = ty, action_ref = ''e1'', action_element = ''Next'', action_value = v\<rparr>"

definition dialog :: "string \<Rightarrow> until" where
  "dialog ty =
     \<lparr>until_element = ''Dialog'', until_ref = ''e2'',
      until_assertion = \<lparr>assertionType = ty\<rparr>, negate = False\<rparr>"

definition request ::
  "string \<Rightarrow> int option \<Rightarrow> until option \<Rightarrow> action \<Rightarrow> limits option \<Rightarrow> params" where
  "request ty n u a lim =
     \<lparr>loop = \<lparr>loop_type = ty, iterations = n, until = u\<rparr>, action = a, limits = lim\<rparr>"

text \<open>
  The requests run on the page: \<^verbatim>\<open>for\<close> loops of three clicks, of no click, without a count,
  of five inputs (the third is rejected) and of two inputs without a value; \<^verbatim>\<open>while\<close> and
  \<^verbatim>\<open>do-while\<close> loops clicking until the dialog is visible (after two clicks), enabled (it is
  from the start) or disabled (it never is), the last with a cap of 3 and of 0.
\<close>

definition click_three_times :: params where
  "click_three_times = request ''for'' (Some 3) None (button ''click'' None) None"


definition for_without_iterations :: params where
  "for_without_iterations = request ''for'' None None (button ''click'' None) None"



definition click_until_visible :: params where
  "click_until_visible =
     request ''while'' None (Some (dialog ''toBeVisible'')) (button ''click'' None) None"




definition while_disabled_3 :: params where
  "while_disabled_3 =
     request ''while'' None (Some (dialog ''toBeDisabled'')) (button ''click'' None)
       (Some \<lparr>limits_maxIterations = Some 3\<rparr>)"

definition do_while_disabled_0 :: params where
  "do_while_disabled_0 =
     request ''do-while'' None (Some (dialog ''toBeDisabled'')) (button ''click'' None)
       (Some \<lparr>limits_maxIterations = Some 0\<rparr>)"

section \<open>Facts about the log\<close>

lemma rejections_append [simp]: "rejections (xs @ ys) = rejections xs @ rejections ys"
  by (simp add: rejections_def)

lemma actions_append [simp]: "actions (xs @ ys) = actions xs @ actions ys"
  by (simp add: actions_def)

lemma performed_append [simp]: "performed (xs @ ys) = performed xs @ performed ys"
  by (simp add: performed_def)

lemma answers_append [simp]: "answers (xs @ ys) = answers xs @ answers ys"
  by (simp add: answers_def)

lemma readings_append [simp]: "readings (xs @ ys) = readings xs @ readings ys"
  by (simp add: readings_def)

lemma conditions_append [simp]: "conditions u (xs @ ys) = conditions u xs @ conditions u ys"
  by (simp add: conditions_def)

lemma rejections_Cons [simp]:
  "rejections (x # xs) = (if is_rejected (snd x) then x # rejections xs else rejections xs)"
  by (simp add: rejections_def)

lemma actions_Cons [simp]:
  "actions (x # xs) = (if is_interaction (fst x) then x # actions xs else actions xs)"
  by (simp add: actions_def)

lemma performed_Cons [simp]:
  "performed (x # xs) =
     (if is_interaction (fst x) \<and> snd x = Resolved then x # performed xs else performed xs)"
  by (simp add: performed_def)

lemma answers_Cons [simp]: "answers (x # xs) = answer (snd x) @ answers xs"
  by (simp add: answers_def)

lemma readings_Cons [simp]: "readings (x # xs) = reading (snd x) @ readings xs"
  by (simp add: readings_def)

lemma conditions_Cons [simp]:
  "conditions u (x # xs) =
     map (\<lambda>v. if negate u then \<not> v else v) (answer (snd x)) @ conditions u xs"
  by (simp add: conditions_def)

lemma log_Nil [simp]:
  "rejections [] = []" "actions [] = []" "performed [] = []" "answers [] = []" "readings [] = []"
  "conditions u [] = []"
  by (simp_all add: rejections_def actions_def performed_def answers_def readings_def conditions_def)

lemma never_met_append [simp]:
  "never_met u (xs @ ys) \<longleftrightarrow> never_met u xs \<and> never_met u ys"
  by (auto simp: never_met_def)

lemma always_met_append [simp]:
  "always_met u (xs @ ys) \<longleftrightarrow> always_met u xs \<and> always_met u ys"
  by (auto simp: always_met_def)

lemma in_time_append [simp]:
  "in_time h st (xs @ ys) \<longleftrightarrow> in_time h st xs \<and> in_time h st ys"
  by (simp add: in_time_def)

lemma ended_simps [simp]:
  "ended (Inl e) cs = thrown_last e cs"
  "ended (Inr v) cs \<longleftrightarrow> rejections cs = []"
  by (simp_all add: ended_def)

lemma settled_append [simp]: "settled (xs @ ys) \<longleftrightarrow> settled xs \<and> settled ys"
  by (simp add: settled_def)

lemma settled_Cons [simp]:
  "settled (x # xs) \<longleftrightarrow>
     (is_interaction (fst x) \<longrightarrow> snd x = Resolved \<or> is_rejected (snd x)) \<and> settled xs"
  by (simp add: settled_def)

lemma settled_Nil [simp]: "settled []"
  by (simp add: settled_def)

lemma settled_no_actions: "actions cs = [] \<Longrightarrow> settled cs"
  by (simp add: settled_def)

lemma thrown_last_append:
  "rejections cs1 = [] \<Longrightarrow> thrown_last e cs2 \<Longrightarrow> thrown_last e (cs1 @ cs2)"
  by (cases e) (auto simp: butlast_append)

lemma ended_append: "rejections cs1 = [] \<Longrightarrow> ended r cs2 \<Longrightarrow> ended r (cs1 @ cs2)"
  by (cases r) (auto intro: thrown_last_append)

lemma thrown_last_rejections:
  "thrown_last e cs \<Longrightarrow> rejections cs \<noteq> [] \<longleftrightarrow> (\<exists>x. e = Thrown x)"
proof (cases e)
  case (Error msg)
  assume "thrown_last e cs"
  with Error show ?thesis by simp
next
  case (Thrown x)
  assume a: "thrown_last e cs"
  with Thrown have "cs = butlast cs @ [last cs]" by simp
  then have "rejections cs = rejections (butlast cs) @ rejections [last cs]"
    by (metis rejections_append)
  with a Thrown show ?thesis by (cases "last cs") auto
qed

lemma performed_actions: "settled cs \<Longrightarrow> rejections cs = [] \<Longrightarrow> performed cs = actions cs"
  by (induction cs) (auto split: if_splits)

section \<open>The effect of the steps\<close>

lemma record_iteration_simps [simp]:
  "iteration (record_iteration lbl a s) = iteration s + 1"
  "calls (record_iteration lbl a s) = calls s"
  "world (record_iteration lbl a s) = world s"
  "evidence (record_iteration lbl a s) =
     evidence s @ [\<lparr>ev_iteration = iteration s + 1, ev_action = a,
                    message = ''Performed '' @ lbl @ '' iteration '' @ toString (iteration s + 1)\<rparr>]"
  by (simp_all add: record_iteration_def Let_def)

lemma await_sleep_simps [simp]:
  "iteration (await_sleep h ms s) = iteration s"
  "calls (await_sleep h ms s) = calls s"
  "evidence (await_sleep h ms s) = evidence s"
  "world (await_sleep h ms s) = sleep h ms (world s)"
  by (simp_all add: await_sleep_def)

lemma now_simps [simp]:
  "fst (now h s) = Date_now h (world s)"
  "iteration (snd (now h s)) = iteration s"
  "evidence (snd (now h s)) = evidence s"
  "world (snd (now h s)) = world s"
  "calls (snd (now h s)) = calls s @ [(DateNow, Time (Date_now h (world s)))]"
  by (simp_all add: now_def)

lemma initial_simps:
  "fst (initial h w) = Date_now h w"
  "snd (initial h w) =
     \<lparr>iteration = 0, evidence = [], world = w, calls = [(DateNow, Time (Date_now h w))]\<rparr>"
  by (simp_all add: initial_def now_def)

lemma initial_start:
  "iteration (snd (initial h w)) = 0" "evidence (snd (initial h w)) = []"
  "actions (calls (snd (initial h w))) = []"
  by (simp_all add: initial_simps)

text \<open>
  The ways a collaborator call, an action and a condition evaluation can end, each with
  the calls it has added to the log. None of them touches the counter or the evidence.
\<close>

lemma invoke_cases:
  assumes "invoke c f out s = (r, s')"
  obtains (rejected) x where "r = Inl (Thrown x)"
      "calls s' = calls s @ [(c, Rejected x)]"
      "iteration s' = iteration s" "evidence s' = evidence s"
  | (resolved) v where "r = Inr v"
      "calls s' = calls s @ [(c, out v)]"
      "iteration s' = iteration s" "evidence s' = evidence s"
  using assms by (auto simp: invoke_def split: prod.splits sum.splits)

lemma runAction_cases:
  assumes "runAction h a s = (r, s')"
  obtains (locate) x where "r = Inl (Thrown x)"
      "calls s' = calls s @ [(RefLocator (action_ref a) (action_element a), Rejected x)]"
      "iteration s' = iteration s" "evidence s' = evidence s"
  | (reject) c x where "r = Inl (Thrown x)" "is_interaction c" "supported a"
      "calls s' = calls s @ [(RefLocator (action_ref a) (action_element a), Resolved),
                             (c, Rejected x)]"
      "iteration s' = iteration s" "evidence s' = evidence s"
  | (invalid) msg where "r = Inl (Error msg)" "\<not> supported a"
      "calls s' = calls s @ [(RefLocator (action_ref a) (action_element a), Resolved)]"
      "iteration s' = iteration s" "evidence s' = evidence s"
  | (completed) c where "r = Inr ()" "is_interaction c" "supported a"
      "calls s' = calls s @ [(RefLocator (action_ref a) (action_element a), Resolved),
                             (c, Resolved)]"
      "iteration s' = iteration s" "evidence s' = evidence s"
proof -
  let ?rl = "RefLocator (action_ref a) (action_element a)"
  obtain r1 s1 where 1: "invoke ?rl (refLocator h (action_ref a) (action_element a))
      (\<lambda>_. Resolved) s = (r1, s1)"
    by (cases "invoke ?rl (refLocator h (action_ref a) (action_element a)) (\<lambda>_. Resolved) s")
  from 1 show thesis
  proof (cases rule: invoke_cases)
    case (rejected x)
    with 1 assms show thesis by (intro locate [of x]) (auto simp: runAction_def)
  next
    case (resolved l)
    note rl = this
    consider (click) "action_type a = ''click''"
      | (hover) "action_type a = ''hover''"
      | (fill) v where "action_type a = ''fill''" "action_value a = Some v"
      | (press) v where "action_type a = ''press''" "action_value a = Some v"
      | (bad) "\<not> supported a"
      by (auto simp: supported_def)
    then show thesis
    proof cases
      case click
      with 1 rl assms have 2: "invoke Click (click h l) (\<lambda>_. Resolved) s1 = (r, s')"
        by (simp add: runAction_def)
      from 2 show thesis
      proof (cases rule: invoke_cases)
        case (rejected x)
        with rl click show thesis by (intro reject [of x Click]) (simp_all add: supported_def)
      next
        case (resolved v)
        with rl click show thesis by (intro completed [of Click]) (simp_all add: supported_def)
      qed
    next
      case hover
      with 1 rl assms have 2: "invoke Hover (hover h l) (\<lambda>_. Resolved) s1 = (r, s')"
        by (simp add: runAction_def)
      from 2 show thesis
      proof (cases rule: invoke_cases)
        case (rejected x)
        with rl hover show thesis by (intro reject [of x Hover]) (simp_all add: supported_def)
      next
        case (resolved v)
        with rl hover show thesis by (intro completed [of Hover]) (simp_all add: supported_def)
      qed
    next
      case (fill v)
      with 1 rl assms have 2: "invoke (Fill v) (fill h l v) (\<lambda>_. Resolved) s1 = (r, s')"
        by (simp add: runAction_def)
      from 2 show thesis
      proof (cases rule: invoke_cases)
        case (rejected x)
        with rl fill show thesis by (intro reject [of x "Fill v"]) (simp_all add: supported_def)
      next
        case (resolved u)
        with rl fill show thesis by (intro completed [of "Fill v"]) (simp_all add: supported_def)
      qed
    next
      case (press v)
      with 1 rl assms have 2: "invoke (Press v) (press h l v) (\<lambda>_. Resolved) s1 = (r, s')"
        by (simp add: runAction_def)
      from 2 show thesis
      proof (cases rule: invoke_cases)
        case (rejected x)
        with rl press show thesis by (intro reject [of x "Press v"]) (simp_all add: supported_def)
      next
        case (resolved u)
        with rl press show thesis by (intro completed [of "Press v"]) (simp_all add: supported_def)
      qed
    next
      case bad
      with 1 rl assms have "\<exists>msg. r = Inl (Error msg)" "s' = s1"
        by (auto simp: runAction_def supported_def split: option.splits if_splits)
      with rl bad show thesis by (auto intro: invalid)
    qed
  qed
qed

lemma evaluateCondition_cases:
  assumes "evaluateCondition h l s = (r, s')"
  obtains (absent) "until l = None" "r = Inr False" "s' = s"
  | (locate) u x where "until l = Some u" "r = Inl (Thrown x)"
      "calls s' = calls s @ [(RefLocator (until_ref u) (until_element u), Rejected x)]"
      "iteration s' = iteration s" "evidence s' = evidence s"
  | (invalid) u msg where "until l = Some u" "r = Inl (Error msg)" "\<not> supported_assertion u"
      "calls s' = calls s @ [(RefLocator (until_ref u) (until_element u), Resolved)]"
      "iteration s' = iteration s" "evidence s' = evidence s"
  | (reject) u q x where "until l = Some u" "r = Inl (Thrown x)" "\<not> is_interaction q"
      "supported_assertion u"
      "calls s' = calls s @ [(RefLocator (until_ref u) (until_element u), Resolved),
                             (q, Rejected x)]"
      "iteration s' = iteration s" "evidence s' = evidence s"
  | (answered) u q b where "until l = Some u" "r = Inr (if negate u then \<not> b else b)"
      "\<not> is_interaction q" "supported_assertion u"
      "calls s' = calls s @ [(RefLocator (until_ref u) (until_element u), Resolved),
                             (q, Returned b)]"
      "iteration s' = iteration s" "evidence s' = evidence s"
proof (cases "until l")
  case None
  with assms show thesis by (intro absent) (auto simp: evaluateCondition_def)
next
  case (Some u)
  let ?rl = "RefLocator (until_ref u) (until_element u)"
  let ?ty = "assertionType (until_assertion u)"
  obtain r1 s1 where 1:
    "invoke ?rl (refLocator h (until_ref u) (until_element u)) (\<lambda>_. Resolved) s = (r1, s1)"
    by (cases "invoke ?rl (refLocator h (until_ref u) (until_element u)) (\<lambda>_. Resolved) s")
  from 1 show thesis
  proof (cases rule: invoke_cases)
    case (rejected x)
    with 1 Some assms show thesis by (intro locate [of u x]) (auto simp: evaluateCondition_def)
  next
    case (resolved loc)
    note rl = this
    show thesis
    proof (cases "supported_assertion u")
      case False
      with 1 rl Some assms have "\<exists>msg. r = Inl (Error msg)" "s' = s1"
        by (auto simp: evaluateCondition_def supported_assertion_def)
      with rl Some False show thesis by (auto intro: invalid)
    next
      case True
      then obtain q f where q: "\<not> is_interaction q" and 2:
        "evaluateCondition h l s =
           (case invoke q f Returned s1 of
              (Inl e, s2) \<Rightarrow> (Inl e, s2)
            | (Inr v, s2) \<Rightarrow> (Inr (if negate u then \<not> v else v), s2))"
      proof -
        have "\<exists>q f. \<not> is_interaction q \<and> evaluateCondition h l s =
           (case invoke q f Returned s1 of
              (Inl e, s2) \<Rightarrow> (Inl e, s2)
            | (Inr v, s2) \<Rightarrow> (Inr (if negate u then \<not> v else v), s2))"
        proof -
          from True consider "?ty = ''toBeVisible''" | "?ty = ''toBeHidden''"
            | "?ty = ''toBeEnabled''" | "?ty = ''toBeDisabled''"
            by (auto simp: supported_assertion_def)
          then show ?thesis
          proof cases
            case 1
            with \<open>invoke ?rl _ _ s = (r1, s1)\<close> rl Some show ?thesis
              by (intro exI [of _ IsVisible] exI [of _ "isVisible h loc"])
                 (simp add: evaluateCondition_def)
          next
            case 2
            with \<open>invoke ?rl _ _ s = (r1, s1)\<close> rl Some show ?thesis
              by (intro exI [of _ IsHidden] exI [of _ "isHidden h loc"])
                 (simp add: evaluateCondition_def)
          next
            case 3
            with \<open>invoke ?rl _ _ s = (r1, s1)\<close> rl Some show ?thesis
              by (intro exI [of _ IsEnabled] exI [of _ "isEnabled h loc"])
                 (simp add: evaluateCondition_def)
          next
            case 4
            with \<open>invoke ?rl _ _ s = (r1, s1)\<close> rl Some show ?thesis
              by (intro exI [of _ IsDisabled] exI [of _ "isDisabled h loc"])
                 (simp add: evaluateCondition_def)
          qed
        qed
        with that show thesis by blast
      qed
      obtain r2 s2 where 3: "invoke q f Returned s1 = (r2, s2)"
        by (cases "invoke q f Returned s1")
      from 3 show thesis
      proof (cases rule: invoke_cases)
        case (rejected x)
        with 2 3 assms rl q True Some show thesis
          by (intro reject [of u x q]) simp_all
      next
        case (resolved b)
        with 2 3 assms rl q True Some show thesis
          by (intro answered [of u b q]) auto
      qed
    qed
  qed
qed

lemma runAction_log:
  assumes "runAction h a s = (r, s')"
  obtains cs where "calls s' = calls s @ cs" "action_log a r cs"
    "iteration s' = iteration s" "evidence s' = evidence s"
  using assms
proof (cases rule: runAction_cases)
  case (locate x)
  then show ?thesis by (intro that) (auto simp: action_log_def)
next
  case (reject c x)
  then show ?thesis by (intro that) (auto simp: action_log_def)
next
  case (invalid msg)
  then show ?thesis by (intro that) (auto simp: action_log_def)
next
  case (completed c)
  then show ?thesis by (intro that) (auto simp: action_log_def)
qed

lemma evaluateCondition_log:
  assumes "evaluateCondition h l s = (r, s')"
  obtains cs where "calls s' = calls s @ cs" "condition_log l r cs"
    "iteration s' = iteration s" "evidence s' = evidence s"
  using assms
proof (cases rule: evaluateCondition_cases)
  case absent
  then show ?thesis by (intro that [of "[]"]) (auto simp: condition_log_def)
next
  case (locate u x)
  then show ?thesis by (intro that) (auto simp: condition_log_def)
next
  case (invalid u msg)
  then show ?thesis by (intro that) (auto simp: condition_log_def)
next
  case (reject u q x)
  then show ?thesis by (intro that) (auto simp: condition_log_def)
next
  case (answered u q b)
  then show ?thesis by (intro that) (auto simp: condition_log_def)
qed

lemma action_log_failed:
  "action_log a (Inl e) cs \<Longrightarrow> thrown_last e cs \<and> settled cs \<and> performed cs = []"
  by (simp add: action_log_def)

lemma action_log_done:
  "action_log a (Inr ()) cs \<Longrightarrow>
   rejections cs = [] \<and> settled cs \<and> length (performed cs) = 1 \<and> length (actions cs) = 1 \<and>
   answers cs = [] \<and> readings cs = []"
  by (simp add: action_log_def)

lemma action_log_actions: "action_log a (Inr ()) cs \<Longrightarrow> length (actions cs) = 1"
  by (simp add: action_log_def)

lemma action_log_throws:
  assumes "action_log a (Inl e) cs" "supported a"
  shows "rejections cs \<noteq> []"
proof (cases e)
  case (Error msg)
  with assms show ?thesis by (simp add: action_log_def)
next
  case (Thrown x)
  from assms(1) have "thrown_last e cs" by (simp add: action_log_def)
  from thrown_last_rejections [OF this] Thrown show ?thesis by simp
qed

lemma condition_log_any:
  "condition_log l r cs \<Longrightarrow>
   ended r cs \<and> settled cs \<and> performed cs = [] \<and> actions cs = [] \<and> readings cs = []"
proof -
  assume a: "condition_log l r cs"
  then have "actions cs = []" by (simp add: condition_log_def)
  moreover from this have "performed cs = []"
    by (induction cs) (auto split: if_splits)
  ultimately show ?thesis using a by (simp add: condition_log_def settled_no_actions)
qed

lemma condition_log_value:
  assumes "condition_log l (Inr v) cs" "until l = Some u"
  shows "conditions u cs = [v]" "rejections cs = []" "actions cs = []"
  using assms by (simp_all add: condition_log_def)

lemma condition_log_actions: "condition_log l r cs \<Longrightarrow> actions cs = []"
  by (simp add: condition_log_def)

lemma condition_log_throws:
  assumes "condition_log l (Inl e) cs" "until l = Some u" "supported_assertion u"
  shows "rejections cs \<noteq> []"
proof (cases e)
  case (Error msg)
  with assms show ?thesis by (simp add: condition_log_def)
next
  case (Thrown x)
  from assms(1) have "thrown_last e cs" by (simp add: condition_log_def)
  from thrown_last_rejections [OF this] Thrown show ?thesis by simp
qed

text \<open>
  The ways one pass through each loop body can end.
\<close>

lemma forBody_cases:
  assumes "forBody h a s = (r, s')"
  obtains (throws) e cs where "r = Inl e"
      "calls s' = calls s @ cs" "action_log a (Inl e) cs"
      "iteration s' = iteration s" "evidence s' = evidence s"
  | (acted) cs msg where "r = Inr Continue"
      "calls s' = calls s @ cs" "action_log a (Inr ()) cs"
      "iteration s' = iteration s + 1"
      "evidence s' = evidence s @
         [\<lparr>ev_iteration = iteration s + 1, ev_action = a, message = msg\<rparr>]"
proof -
  obtain r1 s1 where 1: "runAction h a s = (r1, s1)"
    by (cases "runAction h a s")
  from 1 obtain cs where cs: "calls s1 = calls s @ cs" "action_log a r1 cs"
    "iteration s1 = iteration s" "evidence s1 = evidence s"
    by (rule runAction_log)
  show thesis
  proof (cases r1)
    case (Inl e)
    with 1 assms have "r = Inl e" "s' = s1" by (simp_all add: forBody_def)
    with cs Inl show thesis by (intro throws [of e cs]) simp_all
  next
    case (Inr u)
    with 1 assms have "r = Inr Continue"
      "s' = await_sleep h 300 (record_iteration ''for-loop'' a s1)"
      by (simp_all add: forBody_def)
    with cs Inr show thesis by (intro acted [of cs]) simp_all
  qed
qed

lemma whileBody_cases:
  assumes "whileBody h p st s = (r, s')"
  obtains (condition_throws) e cs where "r = Inl e"
      "calls s' = calls s @ cs" "condition_log (loop p) (Inl e) cs"
      "iteration s' = iteration s" "evidence s' = evidence s"
  | (met) cs where "r = Inr Break"
      "calls s' = calls s @ cs" "condition_log (loop p) (Inr True) cs"
      "iteration s' = iteration s" "evidence s' = evidence s"
  | (action_throws) e cs1 cs2 where "r = Inl e"
      "calls s' = calls s @ cs1 @ cs2"
      "condition_log (loop p) (Inr False) cs1" "action_log (action p) (Inl e) cs2"
      "iteration s' = iteration s" "evidence s' = evidence s"
  | (acted) cs1 cs2 msg where
      "r = Inr (if Date_now h (world s') - st > ELEMENT_ATTACHED_TIMEOUT h
                then Break else Continue)"
      "calls s' = calls s @ cs1 @ cs2 @ [(DateNow, Time (Date_now h (world s')))]"
      "condition_log (loop p) (Inr False) cs1" "action_log (action p) (Inr ()) cs2"
      "iteration s' = iteration s + 1"
      "evidence s' = evidence s @
         [\<lparr>ev_iteration = iteration s + 1, ev_action = action p, message = msg\<rparr>]"
proof -
  obtain r1 s1 where 1: "evaluateCondition h (loop p) s = (r1, s1)"
    by (cases "evaluateCondition h (loop p) s")
  from 1 obtain cs1 where cs1: "calls s1 = calls s @ cs1" "condition_log (loop p) r1 cs1"
    "iteration s1 = iteration s" "evidence s1 = evidence s"
    by (rule evaluateCondition_log)
  show thesis
  proof (cases r1)
    case (Inl e)
    with 1 assms have "r = Inl e" "s' = s1" by (simp_all add: whileBody_def)
    with cs1 Inl show thesis by (intro condition_throws [of e cs1]) simp_all
  next
    case (Inr conditionMet)
    show thesis
    proof (cases conditionMet)
      case True
      with 1 Inr assms have "r = Inr Break" "s' = s1" by (simp_all add: whileBody_def)
      with cs1 Inr True show thesis by (intro met [of cs1]) simp_all
    next
      case False
      obtain r2 s2 where 2: "runAction h (action p) s1 = (r2, s2)"
        by (cases "runAction h (action p) s1")
      from 2 obtain cs2 where cs2: "calls s2 = calls s1 @ cs2" "action_log (action p) r2 cs2"
        "iteration s2 = iteration s1" "evidence s2 = evidence s1"
        by (rule runAction_log)
      show thesis
      proof (cases r2)
        case (Inl e)
        with 1 2 Inr False assms have "r = Inl e" "s' = s2" by (simp_all add: whileBody_def)
        with cs1 cs2 Inr False Inl show thesis
          by (intro action_throws [of e cs1 cs2]) simp_all
      next
        case r2: (Inr u)
        let ?s3 = "await_sleep h 100 (record_iteration ''while-loop'' (action p) s2)"
        from 1 2 Inr False r2 assms have
          "r = Inr (if fst (now h ?s3) - st > ELEMENT_ATTACHED_TIMEOUT h then Break else Continue)"
          "s' = snd (now h ?s3)"
          by (auto simp: whileBody_def case_prod_unfold split: if_splits)
        with cs1 cs2 Inr False r2 show thesis
          by (intro acted [of cs1 cs2]) simp_all
      qed
    qed
  qed
qed

lemma doWhileBody_cases:
  assumes "doWhileBody h p st s = (r, s')"
  obtains (action_throws) e cs where "r = Inl e"
      "calls s' = calls s @ cs" "action_log (action p) (Inl e) cs"
      "iteration s' = iteration s" "evidence s' = evidence s"
  | (condition_throws) e cs1 cs2 msg where "r = Inl e"
      "calls s' = calls s @ cs1 @ cs2"
      "action_log (action p) (Inr ()) cs1" "condition_log (loop p) (Inl e) cs2"
      "iteration s' = iteration s + 1"
      "evidence s' = evidence s @
         [\<lparr>ev_iteration = iteration s + 1, ev_action = action p, message = msg\<rparr>]"
  | (met) cs1 cs2 msg where "r = Inr Break"
      "calls s' = calls s @ cs1 @ cs2"
      "action_log (action p) (Inr ()) cs1" "condition_log (loop p) (Inr True) cs2"
      "iteration s' = iteration s + 1"
      "evidence s' = evidence s @
         [\<lparr>ev_iteration = iteration s + 1, ev_action = action p, message = msg\<rparr>]"
  | (capped) cs1 cs2 msg where "r = Inr Break" "maxIterations p \<le> iteration s + 1"
      "calls s' = calls s @ cs1 @ cs2"
      "action_log (action p) (Inr ()) cs1" "condition_log (loop p) (Inr False) cs2"
      "iteration s' = iteration s + 1"
      "evidence s' = evidence s @
         [\<lparr>ev_iteration = iteration s + 1, ev_action = action p, message = msg\<rparr>]"
  | (timed) cs1 cs2 msg where
      "r = Inr (if Date_now h (world s') - st > ELEMENT_ATTACHED_TIMEOUT h
                then Break else Continue)"
      "iteration s + 1 < maxIterations p"
      "calls s' = calls s @ cs1 @ cs2 @ [(DateNow, Time (Date_now h (world s')))]"
      "action_log (action p) (Inr ()) cs1" "condition_log (loop p) (Inr False) cs2"
      "iteration s' = iteration s + 1"
      "evidence s' = evidence s @
         [\<lparr>ev_iteration = iteration s + 1, ev_action = action p, message = msg\<rparr>]"
proof -
  obtain r1 s1 where 1: "runAction h (action p) s = (r1, s1)"
    by (cases "runAction h (action p) s")
  from 1 obtain cs1 where cs1: "calls s1 = calls s @ cs1" "action_log (action p) r1 cs1"
    "iteration s1 = iteration s" "evidence s1 = evidence s"
    by (rule runAction_log)
  show thesis
  proof (cases r1)
    case (Inl e)
    with 1 assms have "r = Inl e" "s' = s1" by (simp_all add: doWhileBody_def)
    with cs1 Inl show thesis by (intro action_throws [of e cs1]) simp_all
  next
    case r1: (Inr u)
    let ?s1 = "await_sleep h 100 (record_iteration ''do-while'' (action p) s1)"
    obtain r2 s2 where 2: "evaluateCondition h (loop p) ?s1 = (r2, s2)"
      by (cases "evaluateCondition h (loop p) ?s1")
    from 2 obtain cs2 where cs2: "calls s2 = calls ?s1 @ cs2" "condition_log (loop p) r2 cs2"
      "iteration s2 = iteration ?s1" "evidence s2 = evidence ?s1"
      by (rule evaluateCondition_log)
    show thesis
    proof (cases r2)
      case (Inl e)
      with 1 2 r1 assms have "r = Inl e" "s' = s2" by (simp_all add: doWhileBody_def)
      with cs1 cs2 r1 Inl show thesis
        by (intro condition_throws [of e cs1 cs2]) simp_all
    next
      case (Inr conditionMet)
      show thesis
      proof (cases conditionMet)
        case True
        with 1 2 r1 Inr assms have "r = Inr Break" "s' = s2" by (simp_all add: doWhileBody_def)
        with cs1 cs2 r1 Inr True show thesis by (intro met [of cs1 cs2]) simp_all
      next
        case False
        show thesis
        proof (cases "iteration s2 \<ge> maxIterations p")
          case True
          with 1 2 r1 Inr False assms have "r = Inr Break" "s' = s2"
            by (simp_all add: doWhileBody_def)
          with cs1 cs2 r1 Inr False True show thesis by (intro capped [of cs1 cs2]) simp_all
        next
          case cap: False
          with 1 2 r1 Inr False assms have
            "r = Inr (if fst (now h s2) - st > ELEMENT_ATTACHED_TIMEOUT h then Break else Continue)"
            "s' = snd (now h s2)"
            by (auto simp: doWhileBody_def case_prod_unfold split: if_splits)
          with cs1 cs2 r1 Inr False cap show thesis by (intro timed [of cs1 cs2]) simp_all
        qed
      qed
    qed
  qed
qed

section \<open>Loop rules\<close>

text \<open>
  One unfolding of each loop, and for each loop the rule of its invariant: a property \<open>I\<close>
  that holds when the loop is entered and is kept by every pass that continues, gives \<open>Q\<close>
  of the result when \<open>Q\<close> holds however the last pass ends.
\<close>

lemma forBody_never_breaks: "forBody h a s \<noteq> (Inr Break, s')"
  by (auto simp: forBody_def split: prod.splits sum.splits)

lemma forLoop_exit: "\<not> iteration s < n \<Longrightarrow> forLoop h a n s = (Inr (), s)"
  by (subst forLoop.simps) simp

lemma forLoop_throw:
  "iteration s < n \<Longrightarrow> forBody h a s = (Inl e, s1) \<Longrightarrow> forLoop h a n s = (Inl e, s1)"
  by (subst forLoop.simps) simp

lemma forLoop_pass:
  "iteration s < n \<Longrightarrow> forBody h a s = (Inr Continue, s1) \<Longrightarrow>
   forLoop h a n s = forLoop h a n s1"
  by (subst forLoop.simps) simp

lemma whileLoop_exit:
  "\<not> iteration s < maxIterations p \<Longrightarrow> whileLoop h p st s = (Inr (), s)"
  by (subst whileLoop.simps) simp

lemma whileLoop_throw:
  "iteration s < maxIterations p \<Longrightarrow> whileBody h p st s = (Inl e, s1) \<Longrightarrow>
   whileLoop h p st s = (Inl e, s1)"
  by (subst whileLoop.simps) simp

lemma whileLoop_break:
  "iteration s < maxIterations p \<Longrightarrow> whileBody h p st s = (Inr Break, s1) \<Longrightarrow>
   whileLoop h p st s = (Inr (), s1)"
  by (subst whileLoop.simps) simp

lemma whileLoop_pass:
  "iteration s < maxIterations p \<Longrightarrow> whileBody h p st s = (Inr Continue, s1) \<Longrightarrow>
   whileLoop h p st s = whileLoop h p st s1"
  by (subst whileLoop.simps) simp

lemma doWhileLoop_throw:
  "doWhileBody h p st s = (Inl e, s1) \<Longrightarrow> doWhileLoop h p st s = (Inl e, s1)"
  by (subst doWhileLoop.simps) simp

lemma doWhileLoop_break:
  "doWhileBody h p st s = (Inr Break, s1) \<Longrightarrow> doWhileLoop h p st s = (Inr (), s1)"
  by (subst doWhileLoop.simps) simp

lemma doWhileLoop_pass:
  "doWhileBody h p st s = (Inr Continue, s1) \<Longrightarrow>
   doWhileLoop h p st s = doWhileLoop h p st s1"
  by (subst doWhileLoop.simps) simp

lemma forLoop_rule:
  assumes run: "forLoop h a n s = (r, s')"
    and init: "I s"
    and pass: "\<And>s s1. I s \<Longrightarrow> iteration s < n \<Longrightarrow> forBody h a s = (Inr Continue, s1) \<Longrightarrow> I s1"
    and throw: "\<And>s e s1. I s \<Longrightarrow> iteration s < n \<Longrightarrow> forBody h a s = (Inl e, s1)
                 \<Longrightarrow> Q (Inl e) s1"
    and exit: "\<And>s. I s \<Longrightarrow> \<not> iteration s < n \<Longrightarrow> Q (Inr ()) s"
  shows "Q r s'"
  using run init
proof (induction "nat (n - iteration s)" arbitrary: s rule: less_induct)
  case less
  show ?case
  proof (cases "iteration s < n")
    case False
    with less.prems exit [of s] show ?thesis by (simp add: forLoop_exit)
  next
    case True
    obtain x s1 where body: "forBody h a s = (x, s1)"
      by (cases "forBody h a s")
    show ?thesis
    proof (cases x)
      case (Inl e)
      with True body less.prems throw [of s e s1] show ?thesis by (simp add: forLoop_throw)
    next
      case (Inr fl)
      with body have fl: "fl = Continue"
        using forBody_never_breaks [of h a s s1] by (cases fl) simp_all
      with Inr body have step: "forBody h a s = (Inr Continue, s1)" by simp
      then have "iteration s1 = iteration s + 1" by (rule forBody_iteration)
      with True have "nat (n - iteration s1) < nat (n - iteration s)" by simp
      moreover from True step less.prems have "forLoop h a n s1 = (r, s')"
        by (simp add: forLoop_pass)
      moreover from True step less.prems have "I s1" by (auto intro: pass)
      ultimately show ?thesis by (rule less.hyps)
    qed
  qed
qed

lemma whileLoop_rule:
  assumes run: "whileLoop h p st s = (r, s')"
    and init: "I s"
    and pass: "\<And>s s1. I s \<Longrightarrow> iteration s < maxIterations p \<Longrightarrow>
                 whileBody h p st s = (Inr Continue, s1) \<Longrightarrow> I s1"
    and break: "\<And>s s1. I s \<Longrightarrow> iteration s < maxIterations p \<Longrightarrow>
                 whileBody h p st s = (Inr Break, s1) \<Longrightarrow> Q (Inr ()) s1"
    and throw: "\<And>s e s1. I s \<Longrightarrow> iteration s < maxIterations p \<Longrightarrow>
                 whileBody h p st s = (Inl e, s1) \<Longrightarrow> Q (Inl e) s1"
    and exit: "\<And>s. I s \<Longrightarrow> \<not> iteration s < maxIterations p \<Longrightarrow> Q (Inr ()) s"
  shows "Q r s'"
  using run init
proof (induction "nat (maxIterations p - iteration s)" arbitrary: s rule: less_induct)
  case less
  show ?case
  proof (cases "iteration s < maxIterations p")
    case False
    with less.prems exit [of s] show ?thesis by (simp add: whileLoop_exit)
  next
    case True
    obtain x s1 where body: "whileBody h p st s = (x, s1)"
      by (cases "whileBody h p st s")
    show ?thesis
    proof (cases x)
      case (Inl e)
      with True body less.prems throw [of s e s1] show ?thesis by (simp add: whileLoop_throw)
    next
      case (Inr fl)
      show ?thesis
      proof (cases fl)
        case Break
        with Inr True body less.prems break [of s s1] show ?thesis
          by (simp add: whileLoop_break)
      next
        case Continue
        with Inr body have step: "whileBody h p st s = (Inr Continue, s1)" by simp
        then have "iteration s1 = iteration s + 1" by (rule whileBody_iteration)
        with True have "nat (maxIterations p - iteration s1) < nat (maxIterations p - iteration s)"
          by simp
        moreover from True step less.prems have "whileLoop h p st s1 = (r, s')"
          by (simp add: whileLoop_pass)
        moreover from True step less.prems have "I s1" by (auto intro: pass)
        ultimately show ?thesis by (rule less.hyps)
      qed
    qed
  qed
qed

lemma doWhileLoop_rule:
  assumes run: "doWhileLoop h p st s = (r, s')"
    and init: "I s"
    and pass: "\<And>s s1. I s \<Longrightarrow> doWhileBody h p st s = (Inr Continue, s1) \<Longrightarrow> I s1"
    and break: "\<And>s s1. I s \<Longrightarrow> doWhileBody h p st s = (Inr Break, s1) \<Longrightarrow> Q (Inr ()) s1"
    and throw: "\<And>s e s1. I s \<Longrightarrow> doWhileBody h p st s = (Inl e, s1) \<Longrightarrow> Q (Inl e) s1"
  shows "Q r s'"
  using run init
proof (induction "nat (maxIterations p - iteration s)" arbitrary: s rule: less_induct)
  case less
  obtain x s1 where body: "doWhileBody h p st s = (x, s1)"
    by (cases "doWhileBody h p st s")
  show ?case
  proof (cases x)
    case (Inl e)
    with body less.prems throw [of s e s1] show ?thesis by (simp add: doWhileLoop_throw)
  next
    case (Inr fl)
    show ?thesis
    proof (cases fl)
      case Break
      with Inr body less.prems break [of s s1] show ?thesis by (simp add: doWhileLoop_break)
    next
      case Continue
      with Inr body have step: "doWhileBody h p st s = (Inr Continue, s1)" by simp
      from doWhileBody_decreases [OF step [symmetric]]
      have "nat (maxIterations p - iteration s1) < nat (maxIterations p - iteration s)"
        using doWhileBody_Continue [OF step] by simp
      moreover from step less.prems have "doWhileLoop h p st s1 = (r, s')"
        by (simp add: doWhileLoop_pass)
      moreover from step less.prems have "I s1" by (auto intro: pass)
      ultimately show ?thesis by (rule less.hyps)
    qed
  qed
qed

section \<open>Every run is sound\<close>

lemma sound_same:
  "sound (Inr v) s \<Longrightarrow> calls s' = calls s @ cs \<Longrightarrow> iteration s' = iteration s \<Longrightarrow>
   evidence s' = evidence s \<Longrightarrow> ended r cs \<Longrightarrow> settled cs \<Longrightarrow> performed cs = [] \<Longrightarrow>
   sound r s'"
  by (simp add: sound_def counted_def ended_append)

lemma sound_next:
  "sound (Inr v) s \<Longrightarrow> calls s' = calls s @ cs \<Longrightarrow> iteration s' = iteration s + 1 \<Longrightarrow>
   evidence s' = evidence s @ [\<lparr>ev_iteration = iteration s + 1, ev_action = a, message = msg\<rparr>] \<Longrightarrow>
   ended r cs \<Longrightarrow> settled cs \<Longrightarrow> length (performed cs) = 1 \<Longrightarrow>
   sound r s'"
  by (simp add: sound_def counted_def ended_append upto_rec2)

lemma forBody_sound:
  assumes "forBody h a s = (r, s')" "sound (Inr ()) s"
  shows "sound r s'"
  using assms(1)
proof (cases rule: forBody_cases)
  case (throws e cs)
  with assms(2) action_log_failed [of a e cs] show ?thesis
    by (intro sound_same [of _ s s' cs]) simp_all
next
  case (acted cs msg)
  with assms(2) action_log_done [of a cs] show ?thesis
    by (intro sound_next [of _ s s' cs]) simp_all
qed

lemma whileBody_sound:
  assumes "whileBody h p st s = (r, s')" "sound (Inr ()) s"
  shows "sound r s'"
  using assms(1)
proof (cases rule: whileBody_cases)
  case (condition_throws e cs)
  with assms(2) condition_log_any [of "loop p" "Inl e" cs] show ?thesis
    by (intro sound_same [of _ s s' cs]) simp_all
next
  case (met cs)
  with assms(2) condition_log_any [of "loop p" "Inr True" cs] show ?thesis
    by (intro sound_same [of _ s s' cs]) simp_all
next
  case (action_throws e cs1 cs2)
  with assms(2) condition_log_any [of "loop p" "Inr False" cs1]
    action_log_failed [of "action p" e cs2] show ?thesis
    by (intro sound_same [of _ s s' "cs1 @ cs2"]) (simp_all add: thrown_last_append)
next
  case (acted cs1 cs2 msg)
  with assms(2) condition_log_any [of "loop p" "Inr False" cs1]
    action_log_done [of "action p" cs2] show ?thesis
    by (intro sound_next [of _ s s' "cs1 @ cs2 @ [(DateNow, Time (Date_now h (world s')))]"])
       (simp_all split: if_splits)
qed

lemma doWhileBody_sound:
  assumes "doWhileBody h p st s = (r, s')" "sound (Inr ()) s"
  shows "sound r s'"
  using assms(1)
proof (cases rule: doWhileBody_cases)
  case (action_throws e cs)
  with assms(2) action_log_failed [of "action p" e cs] show ?thesis
    by (intro sound_same [of _ s s' cs]) simp_all
next
  case (condition_throws e cs1 cs2 msg)
  with assms(2) condition_log_any [of "loop p" "Inl e" cs2]
    action_log_done [of "action p" cs1] show ?thesis
    by (intro sound_next [of _ s s' "cs1 @ cs2"]) (simp_all add: thrown_last_append)
next
  case (met cs1 cs2 msg)
  with assms(2) condition_log_any [of "loop p" "Inr True" cs2]
    action_log_done [of "action p" cs1] show ?thesis
    by (intro sound_next [of _ s s' "cs1 @ cs2"]) simp_all
next
  case (capped cs1 cs2 msg)
  with assms(2) condition_log_any [of "loop p" "Inr False" cs2]
    action_log_done [of "action p" cs1] show ?thesis
    by (intro sound_next [of _ s s' "cs1 @ cs2"]) simp_all
next
  case (timed cs1 cs2 msg)
  with assms(2) condition_log_any [of "loop p" "Inr False" cs2]
    action_log_done [of "action p" cs1] show ?thesis
    by (intro sound_next [of _ s s' "cs1 @ cs2 @ [(DateNow, Time (Date_now h (world s')))]"])
       (simp_all split: if_splits)
qed

lemma forLoop_sound:
  assumes "forLoop h a n s = (r, s')" "sound (Inr ()) s"
  shows "sound r s'"
  using assms
  by (rule forLoop_rule [where I = "sound (Inr ())"])
     (auto dest!: forBody_sound simp: sound_def)

lemma whileLoop_sound:
  assumes "whileLoop h p st s = (r, s')" "sound (Inr ()) s"
  shows "sound r s'"
  using assms
  by (rule whileLoop_rule [where I = "sound (Inr ())"])
     (auto dest!: whileBody_sound simp: sound_def)

lemma doWhileLoop_sound:
  assumes "doWhileLoop h p st s = (r, s')" "sound (Inr ()) s"
  shows "sound r s'"
  using assms
  by (rule doWhileLoop_rule [where I = "sound (Inr ())"])
     (auto dest!: doWhileBody_sound simp: sound_def)

lemma loopStart_sound:
  assumes "loopStart h p st s = (r, s')" "sound (Inr ()) s"
  shows "sound r s'"
  using assms
  by (auto simp: loopStart_def split: if_splits option.splits
           intro: forLoop_sound whileLoop_sound doWhileLoop_sound)

lemma initial_sound: "initial h w = (st, s) \<Longrightarrow> sound (Inr ()) s"
  by (auto simp: initial_def now_def sound_def counted_def)

lemma handle_sound:
  assumes "handle h p w = (r, s')"
  shows "sound r s'"
proof -
  obtain st s where i: "initial h w = (st, s)" by (cases "initial h w")
  then have s: "sound (Inr ()) s" by (rule initial_sound)
  then have e: "sound (Inl (Error msg) :: error + toolResponse) s" for msg
    by (simp add: sound_def)
  obtain r1 s1 where l: "loopStart h p st s = (r1, s1)" by (cases "loopStart h p st s")
  then have "sound r1 s1" using s by (rule loopStart_sound)
  with assms i l e show ?thesis
    by (auto simp: handle_def waitForCompletion_def sound_def split: if_splits sum.splits)
qed

text \<open>
  What \<^verbatim>\<open>handle\<close> returns, from what \<^verbatim>\<open>loopStart\<close> has returned.
\<close>

lemma handle_Inr:
  assumes "handle h p w = (Inr rep, s')"
  shows "rep = toolResponse p s'"
    and "loopStart h p (fst (initial h w)) (snd (initial h w)) = (Inr (), s')"
    and "loop_type (loop p) = ''for'' \<Longrightarrow> iterations (loop p) \<noteq> None"
    and "loop_type (loop p) = ''while'' \<or> loop_type (loop p) = ''do-while'' \<Longrightarrow>
         until (loop p) \<noteq> None"
  using assms
  by (auto simp: handle_def waitForCompletion_def split: prod.splits if_splits sum.splits)


lemma handle_run:
  assumes "handle h p w = (r, s')"
    and "loop_type (loop p) = ''for'' \<longrightarrow> iterations (loop p) \<noteq> None"
    and "loop_type (loop p) = ''while'' \<or> loop_type (loop p) = ''do-while'' \<longrightarrow>
         until (loop p) \<noteq> None"
  shows "\<exists>r1. loopStart h p (Date_now h w) (snd (initial h w)) = (r1, s') \<and>
              r = (case r1 of Inl e \<Rightarrow> Inl e | Inr v \<Rightarrow> Inr (toolResponse p s'))"
proof -
  let ?run = "loopStart h p (Date_now h w) (snd (initial h w))"
  from assms(2,3) have
    "\<not> (loop_type (loop p) = ''for'' \<and> iterations (loop p) = None)"
    "\<not> ((loop_type (loop p) = ''while'' \<or> loop_type (loop p) = ''do-while'')
         \<and> until (loop p) = None)"
    by auto
  with assms(1) have "s' = snd ?run"
    and "r = (case fst ?run of Inl e \<Rightarrow> Inl e | Inr v \<Rightarrow> Inr (toolResponse p s'))"
    by (auto simp: handle_def waitForCompletion_def case_prod_unfold initial_simps
             split: sum.splits)
  then have "?run = (fst ?run, s') \<and>
      r = (case fst ?run of Inl e \<Rightarrow> Inl e | Inr v \<Rightarrow> Inr (toolResponse p s'))"
    by simp
  then show ?thesis by blast
qed

lemma handle_loopStart:
  assumes "handle h p w = (r, s')"
    and "loopStart h p (fst (initial h w)) (snd (initial h w)) = (Inr (), s1)"
    and "loop_type (loop p) = ''for'' \<longrightarrow> iterations (loop p) \<noteq> None"
    and "loop_type (loop p) = ''while'' \<or> loop_type (loop p) = ''do-while'' \<longrightarrow>
         until (loop p) \<noteq> None"
  shows "r = Inr (toolResponse p s1)" "s' = s1"
proof -
  from assms(3,4) have
    "\<not> (loop_type (loop p) = ''for'' \<and> iterations (loop p) = None)"
    "\<not> ((loop_type (loop p) = ''while'' \<or> loop_type (loop p) = ''do-while'')
         \<and> until (loop p) = None)"
    by auto
  with assms(1,2) show "r = Inr (toolResponse p s1)" "s' = s1"
    by (auto simp: handle_def waitForCompletion_def case_prod_unfold)
qed

lemma sound_report:
  assumes "sound (Inr v) s"
  shows "map ev_iteration (evidence s) = [1..iteration s]"
    and "int (length (evidence s)) = iteration s"
    and "length (actions (calls s)) = length (evidence s)"
proof -
  from assms have c: "counted s" and st: "settled (calls s)" and rj: "rejections (calls s) = []"
    by (simp_all add: sound_def)
  from c show "map ev_iteration (evidence s) = [1..iteration s]"
    and "int (length (evidence s)) = iteration s"
    by (simp_all add: counted_def)
  from c have "length (evidence s) = length (performed (calls s))"
    by (simp add: counted_def)
  also have "performed (calls s) = actions (calls s)"
    using st rj by (rule performed_actions)
  finally show "length (actions (calls s)) = length (evidence s)"
    by (rule sym)
qed

lemma sound_final:
  assumes "handle h p w = (r, s')" "rejections (calls s') = []"
  shows "int (length (evidence s')) = iteration s'"
    and "length (actions (calls s')) = length (evidence s')"
proof -
  from assms(1) have "sound r s'" by (rule handle_sound)
  with assms(2) have "sound (Inr ()) s'" by (simp add: sound_def)
  from sound_report(2,3) [OF this]
  show "int (length (evidence s')) = iteration s'"
    and "length (actions (calls s')) = length (evidence s')" .
qed

lemma nth_numbered:
  assumes "map ev_iteration ev = [1..int (length ev)]" "i < length ev"
  shows "ev_iteration (ev ! i) = int i + 1"
proof -
  from assms(2) have "map ev_iteration ev ! i = ev_iteration (ev ! i)" by simp
  moreover from assms(2) have "[1..int (length ev)] ! i = 1 + int i"
    by (intro nth_upto) simp
  ultimately show ?thesis using assms(1) by simp
qed

section \<open>Runs in which no call is rejected\<close>

text \<open>
  When the action is supported and the stop condition is one of the four assertions, a
  body throws only the rejection of a collaborator call.
\<close>

lemma forBody_throws:
  assumes "forBody h a s = (Inl e, s')" "supported a"
  shows "rejections (calls s') \<noteq> []"
  using assms(1)
proof (cases rule: forBody_cases)
  case (throws e' cs)
  with assms(2) action_log_throws [of a e' cs] show ?thesis by simp
next
  case (acted cs msg)
  then show ?thesis by simp
qed

lemma whileBody_throws:
  assumes "whileBody h p st s = (Inl e, s')"
    and "supported (action p)" "until (loop p) = Some u" "supported_assertion u"
  shows "rejections (calls s') \<noteq> []"
  using assms(1)
proof (cases rule: whileBody_cases)
  case (condition_throws e' cs)
  with assms(3,4) condition_log_throws [of "loop p" e' cs u] show ?thesis by simp
next
  case (met cs)
  then show ?thesis by simp
next
  case (action_throws e' cs1 cs2)
  with assms(2) action_log_throws [of "action p" e' cs2] show ?thesis by simp
next
  case (acted cs1 cs2 msg)
  then show ?thesis by (simp split: if_splits)
qed

lemma doWhileBody_throws:
  assumes "doWhileBody h p st s = (Inl e, s')"
    and "supported (action p)" "until (loop p) = Some u" "supported_assertion u"
  shows "rejections (calls s') \<noteq> []"
  using assms(1)
proof (cases rule: doWhileBody_cases)
  case (action_throws e' cs)
  with assms(2) action_log_throws [of "action p" e' cs] show ?thesis by simp
next
  case (condition_throws e' cs1 cs2 msg)
  with assms(3,4) condition_log_throws [of "loop p" e' cs2 u] show ?thesis by simp
next
  case (met cs1 cs2 msg)
  then show ?thesis by simp
next
  case (capped cs1 cs2 msg)
  then show ?thesis by simp
next
  case (timed cs1 cs2 msg)
  then show ?thesis by (simp split: if_splits)
qed

text \<open>
  A \<^verbatim>\<open>for\<close> loop in whose run no call is rejected returns with the counter at \<open>n\<close>.
\<close>

lemma forLoop_completes:
  assumes "forLoop h a n s = (r, s')" "iteration s \<le> n" "supported a"
    and "rejections (calls s') = []"
  shows "r = Inr () \<and> iteration s' = n"
proof -
  have "rejections (calls s') = [] \<longrightarrow> r = Inr () \<and> iteration s' = n"
    using assms(1,2)
  proof (rule forLoop_rule [where I = "\<lambda>s. iteration s \<le> n"])
    fix s s1
    assume "iteration s < n" "forBody h a s = (Inr Continue, s1)"
    then show "iteration s1 \<le> n" by (auto dest: forBody_iteration)
  next
    fix s e s1
    assume "forBody h a s = (Inl e, s1)"
    from forBody_throws [OF this assms(3)]
    show "rejections (calls s1) = [] \<longrightarrow> Inl e = Inr () \<and> iteration s1 = n" by simp
  next
    fix s :: "'a state"
    assume "iteration s \<le> n" "\<not> iteration s < n"
    then show "rejections (calls s) = [] \<longrightarrow> Inr () = Inr () \<and> iteration s = n" by simp
  qed
  with assms(4) show ?thesis by simp
qed



text \<open>
  A \<^verbatim>\<open>while\<close> loop and a \<^verbatim>\<open>do-while\<close> loop whose condition is never met, and whose
  timeout is never exceeded, stop at the cap: the first at \<open>max maxIterations 0\<close>, the
  second, which tests the cap only after an iteration, at \<open>max maxIterations 1\<close>.
\<close>

lemma whileLoop_capped:
  fixes h :: "('w, 'l) host"
  assumes run: "whileLoop h p st s = (r, s')"
    and start: "iteration s = 0"
    and u: "until (loop p) = Some u" "supported_assertion u" and a: "supported (action p)"
    and clean: "rejections (calls s') = []" and never: "never_met u (calls s')"
    and time: "in_time h st (calls s')"
  shows "r = Inr () \<and> iteration s' = max (maxIterations p) 0"
proof -
  let ?H = "\<lambda>s. rejections (calls s) = [] \<and> never_met u (calls s) \<and> in_time h st (calls s)"
  let ?I = "\<lambda>s. 0 \<le> iteration s \<and> iteration s \<le> max (maxIterations p) 0"
  have "?H s' \<longrightarrow> r = Inr () \<and> iteration s' = max (maxIterations p) 0"
    using run
  proof (rule whileLoop_rule [where I = ?I])
    from start show "?I s" by simp
  next
    fix s s1 :: "'w state"
    assume "?I s" "iteration s < maxIterations p" "whileBody h p st s = (Inr Continue, s1)"
    then show "?I s1" by (auto dest: whileBody_iteration)
  next
    fix s s1 :: "'w state"
    assume "whileBody h p st s = (Inr Break, s1)"
    then show "?H s1 \<longrightarrow> Inr () = Inr () \<and> iteration s1 = max (maxIterations p) 0"
      using u by (cases rule: whileBody_cases)
        (auto simp: never_met_def in_time_def dest: condition_log_value split: if_splits)
  next
    fix s s1 :: "'w state" and e
    assume "whileBody h p st s = (Inl e, s1)"
    from whileBody_throws [OF this a u]
    show "?H s1 \<longrightarrow> Inl e = Inr () \<and> iteration s1 = max (maxIterations p) 0"
      by simp
  next
    fix s :: "'w state"
    assume "?I s" "\<not> iteration s < maxIterations p"
    then show "?H s \<longrightarrow> Inr () = Inr () \<and> iteration s = max (maxIterations p) 0"
      by auto
  qed
  with clean never time show ?thesis by simp
qed

lemma doWhileLoop_capped:
  fixes h :: "('w, 'l) host"
  assumes run: "doWhileLoop h p st s = (r, s')"
    and start: "iteration s = 0"
    and u: "until (loop p) = Some u" "supported_assertion u" and a: "supported (action p)"
    and clean: "rejections (calls s') = []" and never: "never_met u (calls s')"
    and time: "in_time h st (calls s')"
  shows "r = Inr () \<and> iteration s' = max (maxIterations p) 1"
proof -
  let ?H = "\<lambda>s. rejections (calls s) = [] \<and> never_met u (calls s) \<and> in_time h st (calls s)"
  let ?I = "\<lambda>s. 0 \<le> iteration s \<and> iteration s < max (maxIterations p) 1"
  have "?H s' \<longrightarrow> r = Inr () \<and> iteration s' = max (maxIterations p) 1"
    using run
  proof (rule doWhileLoop_rule [where I = ?I])
    from start show "?I s" by simp
  next
    fix s s1 :: "'w state"
    assume "?I s" "doWhileBody h p st s = (Inr Continue, s1)"
    then show "?I s1"
      by (auto dest: doWhileBody_iteration doWhileBody_Continue)
  next
    fix s s1 :: "'w state"
    assume inv: "?I s"
    assume "doWhileBody h p st s = (Inr Break, s1)"
    then show "?H s1 \<longrightarrow> Inr () = Inr () \<and> iteration s1 = max (maxIterations p) 1"
      using u inv by (cases rule: doWhileBody_cases)
        (auto simp: never_met_def in_time_def dest: condition_log_value split: if_splits)
  next
    fix s s1 :: "'w state" and e
    assume "doWhileBody h p st s = (Inl e, s1)"
    from doWhileBody_throws [OF this a u]
    show "?H s1 \<longrightarrow> Inl e = Inr () \<and> iteration s1 = max (maxIterations p) 1"
      by simp
  qed
  with clean never time show ?thesis by simp
qed

section \<open>The first pass of a do-while loop\<close>

text \<open>
  A \<^verbatim>\<open>do-while\<close> loop never loses what it has counted, and its first pass counts one
  iteration whenever its action and its condition evaluation resolve.
\<close>

lemma doWhileBody_grows:
  assumes "doWhileBody h p st s = (r, s1)"
  shows "iteration s \<le> iteration s1 \<and> length (evidence s) \<le> length (evidence s1) \<and>
         length (actions (calls s)) \<le> length (actions (calls s1))"
  using assms by (cases rule: doWhileBody_cases) auto

lemma doWhileLoop_grows:
  fixes h :: "('w, 'l) host"
  assumes "doWhileLoop h p st s = (r, s')"
  shows "iteration s \<le> iteration s' \<and> length (evidence s) \<le> length (evidence s') \<and>
         length (actions (calls s)) \<le> length (actions (calls s'))"
proof -
  let ?I = "\<lambda>t :: 'w state. iteration s \<le> iteration t \<and>
      length (evidence s) \<le> length (evidence t) \<and>
      length (actions (calls s)) \<le> length (actions (calls t))"
  show ?thesis
    using assms
  proof (rule doWhileLoop_rule [where I = ?I and Q = "\<lambda>r. ?I"])
    show "?I s" by simp
  next
    fix t t1 :: "'w state"
    assume "?I t" "doWhileBody h p st t = (Inr Continue, t1)"
    then show "?I t1" by (auto dest!: doWhileBody_grows)
  next
    fix t t1 :: "'w state"
    assume "?I t" "doWhileBody h p st t = (Inr Break, t1)"
    then show "?I t1" by (auto dest!: doWhileBody_grows)
  next
    fix t t1 :: "'w state" and e
    assume "?I t" "doWhileBody h p st t = (Inl e, t1)"
    then show "?I t1" by (auto dest!: doWhileBody_grows)
  qed
qed

lemma doWhileBody_first:
  assumes act: "runAction h (action p) s = (Inr (), s1)"
    and cond: "evaluateCondition h (loop p)
                 (await_sleep h 100 (record_iteration ''do-while'' (action p) s1)) = (Inr b, s2)"
    and start: "iteration s = 0" "evidence s = []" "actions (calls s) = []"
  shows "\<exists>fl sx. doWhileBody h p st s = (Inr fl, sx) \<and>
           iteration sx = 1 \<and> length (evidence sx) = 1 \<and> length (actions (calls sx)) = 1 \<and>
           (b \<or> maxIterations p \<le> 1 \<longrightarrow> fl = Break)"
proof -
  from act obtain cs1 where 1: "calls s1 = calls s @ cs1" "action_log (action p) (Inr ()) cs1"
    "iteration s1 = iteration s" "evidence s1 = evidence s"
    by (rule runAction_log)
  from cond obtain cs2 where 2:
    "calls s2 = calls (await_sleep h 100 (record_iteration ''do-while'' (action p) s1)) @ cs2"
    "condition_log (loop p) (Inr b) cs2"
    "iteration s2 = iteration (await_sleep h 100 (record_iteration ''do-while'' (action p) s1))"
    "evidence s2 = evidence (await_sleep h 100 (record_iteration ''do-while'' (action p) s1))"
    by (rule evaluateCondition_log)
  from 1 2 start have s2: "iteration s2 = 1" "length (evidence s2) = 1"
    "length (actions (calls s2)) = 1"
    by (simp_all add: action_log_actions condition_log_actions)
  have body: "doWhileBody h p st s =
      (if b then (Inr Break, s2)
       else if maxIterations p \<le> iteration s2 then (Inr Break, s2)
       else (Inr (if fst (now h s2) - st > ELEMENT_ATTACHED_TIMEOUT h then Break else Continue),
             snd (now h s2)))"
    using act cond by (simp add: doWhileBody_def case_prod_unfold)
  show ?thesis
  proof (cases "b \<or> maxIterations p \<le> 1")
    case True
    with body s2 have "doWhileBody h p st s = (Inr Break, s2)" by auto
    with s2 show ?thesis by simp
  next
    case False
    with body s2 have "doWhileBody h p st s =
      (Inr (if fst (now h s2) - st > ELEMENT_ATTACHED_TIMEOUT h then Break else Continue),
       snd (now h s2))"
      by auto
    with s2 False show ?thesis by simp
  qed
qed

section \<open>Actions whose value is missing\<close>







section \<open>Where the cycles of a while loop start\<close>

lemma while_cycle_start_Suc:
  assumes "while_cycle_start h p st (Suc n) s = Some s'"
  obtains s1 where "iteration s < maxIterations p" "whileBody h p st s = (Inr Continue, s1)"
    "while_cycle_start h p st n s1 = Some s'"
  using assms
  by (auto split: if_splits prod.splits sum.splits flow.splits)

lemma whileBody_Continue_in_time:
  assumes "whileBody h p st s = (Inr Continue, s1)"
  shows "Date_now h (world s1) - st \<le> ELEMENT_ATTACHED_TIMEOUT h"
  using assms by (cases rule: whileBody_cases) (auto split: if_splits)

lemma while_cycle_start_in_time:
  assumes "while_cycle_start h p st n s = Some s'"
    and "Date_now h (world s) - st \<le> ELEMENT_ATTACHED_TIMEOUT h"
  shows "Date_now h (world s') - st \<le> ELEMENT_ATTACHED_TIMEOUT h"
  using assms
proof (induction n arbitrary: s)
  case 0
  then show ?case by simp
next
  case (Suc n)
  from Suc.prems(1) obtain s1 where "whileBody h p st s = (Inr Continue, s1)"
    "while_cycle_start h p st n s1 = Some s'"
    by (rule while_cycle_start_Suc)
  with Suc.IH [of s1] show ?case by (simp add: whileBody_Continue_in_time)
qed

lemma while_cycle_start_on_run:
  assumes "while_cycle_start h p st n s = Some s'"
  shows "whileLoop h p st s = whileLoop h p st s'"
  using assms
proof (induction n arbitrary: s)
  case 0
  then show ?case by simp
next
  case (Suc n)
  from Suc.prems obtain s1 where "iteration s < maxIterations p"
    "whileBody h p st s = (Inr Continue, s1)" "while_cycle_start h p st n s1 = Some s'"
    by (rule while_cycle_start_Suc)
  with Suc.IH [of s1] show ?case by (simp add: whileLoop_pass)
qed

section \<open>The claims\<close>

text \<open>
  C1. A \<^verbatim>\<open>for\<close> request with \<open>iterations = k\<close>, \<open>k \<ge> 1\<close>, and a supported action, in
  whose run no collaborator call is rejected (every execution of the action succeeds),
  returns a report with exactly \<open>k\<close> records, numbered \<open>1, ..., k\<close> in order, and the
  status \<open>pass\<close>; exactly \<open>k\<close> actions were performed.
\<close>

theorem for_loop_runs_k_times:
  assumes "loop_type (loop p) = ''for''" and "iterations (loop p) = Some k" and "1 \<le> k"
    and "supported (action p)"
    and "handle h p w = (r, s')" and "rejections (calls s') = []"
  shows "\<exists>rep. r = Inr rep \<and>
           map ev_iteration (summary_evidence (response_summary rep)) = [1..k] \<and>
           int (length (summary_evidence (response_summary rep))) = k \<and>
           status (response_summary rep) = ''pass'' \<and>
           int (length (actions (calls s'))) = k"
proof -
  let ?s0 = "snd (initial h w)"
  obtain r1 s1 where loop: "forLoop h (action p) k ?s0 = (r1, s1)"
    by (cases "forLoop h (action p) k ?s0")
  with assms(1,2) have start: "loopStart h p (fst (initial h w)) ?s0 = (r1, s1)"
    by (simp add: loopStart_def)
  have s1: "s' = s1"
    using assms(1,2,5) start
    by (cases r1) (auto simp: handle_def waitForCompletion_def split: prod.splits)
  have "iteration ?s0 \<le> k" using assms(3) by (simp add: initial_simps)
  from forLoop_completes [OF loop this assms(4)] assms(6) s1
  have r1: "r1 = Inr ()" and k: "iteration s1 = k" by simp_all
  from start r1 assms(1,2,5) have r: "r = Inr (toolResponse p s1)"
    by (intro handle_loopStart(1) [of h p w r s']) simp_all
  have "sound (Inr ()) ?s0" by (rule initial_sound [of h w "fst (initial h w)"]) simp
  with loop have "sound r1 s1" by (rule forLoop_sound)
  with r1 have "sound (Inr ()) s1" by simp
  from sound_report [OF this] k r s1 assms(3) show ?thesis
    by (simp add: toolResponse_def)
qed

theorem for_loop_runs_k_times_witness:
  "supported (action click_three_times) \<and>
   rejections (calls (snd (handle page click_three_times (0, 0)))) = [] \<and>
   fst (handle page click_three_times (0, 0)) =
     Inr (toolResponse click_three_times (snd (handle page click_three_times (0, 0)))) \<and>
   map ev_iteration (evidence (snd (handle page click_three_times (0, 0)))) = [1, 2, 3] \<and>
   length (actions (calls (snd (handle page click_three_times (0, 0))))) = 3"
proof -
  let ?run = "handle page click_three_times (0, 0)"
  have spec: "loop_type (loop click_three_times) = ''for''"
    "iterations (loop click_three_times) = Some 3" "supported (action click_three_times)"
    by (simp_all add: click_three_times_def request_def button_def supported_def)
  have run: "?run = (fst ?run, snd ?run)" by simp
  have clean: "rejections (calls (snd ?run)) = []" by code_simp
  have rep: "fst ?run = Inr (toolResponse click_three_times (snd ?run))" by code_simp
  have upto: "[1..3] = [1, 2, 3 :: int]" by code_simp
  from for_loop_runs_k_times [OF spec(1,2) _ spec(3) run clean] spec(3) clean rep upto
  show ?thesis
    by (auto simp: toolResponse_def)
qed





text \<open>
  C4, as stated, fails for a \<^verbatim>\<open>do-while\<close> loop with \<open>maxIterations = 0\<close>: on the example
  page, with a condition that is never met, every call resolving and the clock within the
  timeout, the run reports one record, not zero.
\<close>

theorem zero_cap_do_while_counterexample:
  "loop_type (loop do_while_disabled_0) = ''do-while'' \<and>
   maxIterations do_while_disabled_0 = 0 \<and>
   until (loop do_while_disabled_0) = Some (dialog ''toBeDisabled'') \<and>
   supported_assertion (dialog ''toBeDisabled'') \<and>
   supported (action do_while_disabled_0) \<and>
   rejections (calls (snd (handle page do_while_disabled_0 (0, 0)))) = [] \<and>
   never_met (dialog ''toBeDisabled'') (calls (snd (handle page do_while_disabled_0 (0, 0)))) \<and>
   in_time page (Date_now page (0, 0)) (calls (snd (handle page do_while_disabled_0 (0, 0)))) \<and>
   fst (handle page do_while_disabled_0 (0, 0)) =
     Inr (toolResponse do_while_disabled_0 (snd (handle page do_while_disabled_0 (0, 0)))) \<and>
   length (summary_evidence (response_summary
     (toolResponse do_while_disabled_0 (snd (handle page do_while_disabled_0 (0, 0)))))) = 1 \<and>
   int (length (summary_evidence (response_summary
     (toolResponse do_while_disabled_0 (snd (handle page do_while_disabled_0 (0, 0))))))) \<noteq>
     maxIterations do_while_disabled_0"
  by code_simp

text \<open>
  C4, amended. Take a \<^verbatim>\<open>while\<close> or \<^verbatim>\<open>do-while\<close> request with a supported action and stop
  condition and \<open>maxIterations = m\<close>, and a run in which no collaborator call is rejected,
  the stop condition is never met and the timeout is never exceeded. The run returns a
  report with exactly \<open>m\<close> records when \<open>m \<ge> 1\<close>; for \<open>m \<le> 0\<close> a \<^verbatim>\<open>while\<close> loop reports
  none and a \<^verbatim>\<open>do-while\<close> loop reports one. The number of actions performed is the number
  of records: no further action is executed.
\<close>

theorem cap_reached_when_never_met:
  assumes "loop_type (loop p) = ''while'' \<or> loop_type (loop p) = ''do-while''"
    and "until (loop p) = Some u" and "supported_assertion u" and "supported (action p)"
    and "handle h p w = (r, s')"
    and "rejections (calls s') = []" and "never_met u (calls s')"
    and "in_time h (Date_now h w) (calls s')"
  shows "\<exists>rep. r = Inr rep \<and>
           int (length (summary_evidence (response_summary rep))) =
             (if loop_type (loop p) = ''while'' then max (maxIterations p) 0
              else max (maxIterations p) 1) \<and>
           length (actions (calls s')) = length (summary_evidence (response_summary rep))"
proof -
  from handle_run [OF assms(5)] assms(1,2) obtain r1 where
    start: "loopStart h p (Date_now h w) (snd (initial h w)) = (r1, s')" and
    r: "r = (case r1 of Inl e \<Rightarrow> Inl e | Inr v \<Rightarrow> Inr (toolResponse p s'))"
    by auto
  note n = sound_final [OF assms(5,6)]
  from assms(1) show ?thesis
  proof
    assume ty: "loop_type (loop p) = ''while''"
    with start have "whileLoop h p (Date_now h w) (snd (initial h w)) = (r1, s')"
      by (simp add: loopStart_def)
    from whileLoop_capped [OF this initial_start(1) assms(2,3,4,6,7,8)] r n ty show ?thesis
      by (simp add: toolResponse_def)
  next
    assume ty: "loop_type (loop p) = ''do-while''"
    with start have "doWhileLoop h p (Date_now h w) (snd (initial h w)) = (r1, s')"
      by (simp add: loopStart_def)
    from doWhileLoop_capped [OF this initial_start(1) assms(2,3,4,6,7,8)] r n ty show ?thesis
      by (simp add: toolResponse_def)
  qed
qed

theorem cap_reached_when_never_met_witness:
  "maxIterations while_disabled_3 = 3 \<and>
   rejections (calls (snd (handle page while_disabled_3 (0, 0)))) = [] \<and>
   never_met (dialog ''toBeDisabled'') (calls (snd (handle page while_disabled_3 (0, 0)))) \<and>
   in_time page (Date_now page (0, 0)) (calls (snd (handle page while_disabled_3 (0, 0)))) \<and>
   fst (handle page while_disabled_3 (0, 0)) =
     Inr (toolResponse while_disabled_3 (snd (handle page while_disabled_3 (0, 0)))) \<and>
   length (evidence (snd (handle page while_disabled_3 (0, 0)))) = 3 \<and>
   length (actions (calls (snd (handle page while_disabled_3 (0, 0))))) = 3"
proof -
  let ?u = "dialog ''toBeDisabled''"
  let ?run = "handle page while_disabled_3 (0, 0)"
  have spec: "loop_type (loop while_disabled_3) = ''while''"
    "until (loop while_disabled_3) = Some ?u" "supported_assertion ?u"
    "supported (action while_disabled_3)"
    by (simp_all add: while_disabled_3_def request_def button_def dialog_def supported_def
          supported_assertion_def)
  have m: "maxIterations while_disabled_3 = 3" by code_simp
  have run: "?run = (fst ?run, snd ?run)" by simp
  have hyp: "rejections (calls (snd ?run)) = []" "never_met ?u (calls (snd ?run))"
    "in_time page (Date_now page (0, 0)) (calls (snd ?run))"
    by code_simp+
  have rep: "fst ?run = Inr (toolResponse while_disabled_3 (snd ?run))" by code_simp
  from cap_reached_when_never_met [OF disjI1 [OF spec(1)] spec(2,3,4) run hyp] spec(1) m hyp rep
  show ?thesis by (auto simp: toolResponse_def)
qed

text \<open>
  C5. Take the \<^verbatim>\<open>while\<close> loop as \<^verbatim>\<open>handle\<close> enters it, with a timeout constant that is not
  negative, and any state \<open>s\<close> in which one of its cycles starts. The run of the loop passes
  through \<open>s\<close>. In \<open>s\<close> the time elapsed since the start time does not exceed the timeout:
  the source tests the timeout at the end of the body, after the pause, which is the state
  in which the next cycle starts, and the first cycle starts at the start time. And if in
  \<open>s\<close> the counter has reached \<open>maxIterations\<close>, the loop returns at once in the state \<open>s\<close>:
  the condition is not evaluated and the action is not performed. So no action is performed
  in a cycle at whose start either guard is breached.
\<close>

theorem while_guards_at_cycle_start:
  assumes "0 \<le> ELEMENT_ATTACHED_TIMEOUT h"
    and "initial h w = (st, s0)"
    and "while_cycle_start h p st n s0 = Some s"
  shows "whileLoop h p st s0 = whileLoop h p st s \<and>
         Date_now h (world s) - st \<le> ELEMENT_ATTACHED_TIMEOUT h \<and>
         (maxIterations p \<le> iteration s \<longrightarrow> whileLoop h p st s = (Inr (), s))"
proof -
  from assms(2) have "st = Date_now h w" "world s0 = w"
    by (auto simp: initial_def now_def)
  with assms(1) have "Date_now h (world s0) - st \<le> ELEMENT_ATTACHED_TIMEOUT h"
    by simp
  with assms(3) have "Date_now h (world s) - st \<le> ELEMENT_ATTACHED_TIMEOUT h"
    by (rule while_cycle_start_in_time)
  moreover from assms(3) have "whileLoop h p st s0 = whileLoop h p st s"
    by (rule while_cycle_start_on_run)
  moreover have "whileLoop h p st s = (Inr (), s)" if "maxIterations p \<le> iteration s"
    using that by (simp add: whileLoop_exit)
  ultimately show ?thesis by simp
qed

theorem while_guards_at_cycle_start_witness:
  "0 \<le> ELEMENT_ATTACHED_TIMEOUT page \<and>
   while_cycle_start page while_disabled_3 0 3 (snd (initial page (0, 0))) =
     Some (snd (handle page while_disabled_3 (0, 0))) \<and>
   maxIterations while_disabled_3 \<le> iteration (snd (handle page while_disabled_3 (0, 0))) \<and>
   Date_now page (world (snd (handle page while_disabled_3 (0, 0)))) - 0 \<le> 1000 \<and>
   whileLoop page while_disabled_3 0 (snd (handle page while_disabled_3 (0, 0))) =
     (Inr (), snd (handle page while_disabled_3 (0, 0)))"
proof -
  let ?q = while_disabled_3
  let ?s = "snd (handle page ?q (0, 0))"
  have t: "0 \<le> ELEMENT_ATTACHED_TIMEOUT page" "ELEMENT_ATTACHED_TIMEOUT page = 1000"
    by (simp_all add: page_def)
  have i: "initial page (0, 0) = (0, snd (initial page (0, 0)))" by code_simp
  have c: "while_cycle_start page ?q 0 3 (snd (initial page (0, 0))) = Some ?s" by code_simp
  have m: "maxIterations ?q \<le> iteration ?s" by code_simp
  from while_guards_at_cycle_start [OF t(1) i c] t c m show ?thesis by simp
qed



text \<open>
  C7. A \<^verbatim>\<open>for\<close> request without \<^verbatim>\<open>iterations\<close>, and a \<^verbatim>\<open>while\<close> or \<^verbatim>\<open>do-while\<close> request
  without \<^verbatim>\<open>until\<close>, throws the error that names the missing field, in the state in which
  only the clock has been read: no element was located, no interaction made, no evidence
  recorded.
\<close>

theorem malformed_loop_is_rejected:
  assumes "loop_type (loop p) = ''for'' \<and> iterations (loop p) = None \<or>
           (loop_type (loop p) = ''while'' \<or> loop_type (loop p) = ''do-while'') \<and>
           until (loop p) = None"
  shows "handle h p w =
           (Inl (Error
              (if loop_type (loop p) = ''for''
               then ''repeat_action: '' @ [CHR 0x22] @ ''iterations'' @ [CHR 0x22]
                    @ '' is required when loop.type is '' @ [CHR 0x22] @ ''for'' @ [CHR 0x22]
               else ''repeat_action: '' @ [CHR 0x22] @ ''until'' @ [CHR 0x22]
                    @ '' condition is required when loop.type is '' @ [CHR 0x22]
                    @ loop_type (loop p) @ [CHR 0x22])),
            \<lparr>iteration = 0, evidence = [], world = w,
             calls = [(DateNow, Time (Date_now h w))]\<rparr>)"
  using assms
  by (auto simp: handle_def initial_def now_def)

theorem malformed_loop_is_rejected_witness:
  "loop_type (loop for_without_iterations) = ''for'' \<and>
   iterations (loop for_without_iterations) = None \<and>
   isl (fst (handle page for_without_iterations (0, 0))) \<and>
   calls (snd (handle page for_without_iterations (0, 0))) = [(DateNow, Time 0)] \<and>
   evidence (snd (handle page for_without_iterations (0, 0))) = []"
proof -
  have a: "loop_type (loop for_without_iterations) = ''for'' \<and>
           iterations (loop for_without_iterations) = None"
    by (simp add: for_without_iterations_def request_def)
  then have "loop_type (loop for_without_iterations) = ''for'' \<and>
      iterations (loop for_without_iterations) = None \<or>
      (loop_type (loop for_without_iterations) = ''while'' \<or>
       loop_type (loop for_without_iterations) = ''do-while'') \<and>
      until (loop for_without_iterations) = None"
    by simp
  from malformed_loop_is_rejected [OF this, of page "(0, 0)"] a show ?thesis
    by (auto simp: page_def)
qed




text \<open>
  C9. In the report of a run that returns one, the records are numbered \<open>1, 2, ..., N\<close> in
  order: record \<open>i\<close> (from 0) has the number \<open>i + 1\<close>, and the numbers increase strictly.
  There is one record for each action that completed, and every action attempted completed.
\<close>

theorem evidence_is_numbered:
  assumes "handle h p w = (Inr rep, s')"
  shows "map ev_iteration (summary_evidence (response_summary rep)) =
           [1..int (length (summary_evidence (response_summary rep)))] \<and>
         (\<forall>i < length (summary_evidence (response_summary rep)).
            ev_iteration (summary_evidence (response_summary rep) ! i) = int i + 1) \<and>
         sorted_wrt (<) (map ev_iteration (summary_evidence (response_summary rep))) \<and>
         length (summary_evidence (response_summary rep)) = length (performed (calls s')) \<and>
         performed (calls s') = actions (calls s')"
proof -
  let ?ev = "summary_evidence (response_summary rep)"
  from handle_Inr(1) [OF assms] have rep: "?ev = evidence s'"
    by (simp add: toolResponse_def)
  from assms have "sound (Inr rep) s'" by (rule handle_sound)
  then have c: "counted s'" and st: "settled (calls s')" and rj: "rejections (calls s') = []"
    by (simp_all add: sound_def)
  from c rep have num: "map ev_iteration ?ev = [1..int (length ?ev)]"
    and len: "length ?ev = length (performed (calls s'))"
    by (simp_all add: counted_def)
  from num have "\<forall>i < length ?ev. ev_iteration (?ev ! i) = int i + 1"
    by (simp add: nth_numbered)
  moreover have "sorted_wrt (<) [1..int (length ?ev)]"
    by (rule sorted_wrt_upto)
  ultimately show ?thesis
    using num len performed_actions [OF st rj] by simp
qed

theorem evidence_is_numbered_witness:
  "handle page click_until_visible (0, 0) =
     (Inr (toolResponse click_until_visible (snd (handle page click_until_visible (0, 0)))),
      snd (handle page click_until_visible (0, 0))) \<and>
   map ev_iteration (summary_evidence (response_summary
     (toolResponse click_until_visible (snd (handle page click_until_visible (0, 0)))))) = [1, 2] \<and>
   length (performed (calls (snd (handle page click_until_visible (0, 0))))) = 2"
proof -
  let ?s = "snd (handle page click_until_visible (0, 0))"
  have run: "handle page click_until_visible (0, 0) =
     (Inr (toolResponse click_until_visible ?s), ?s)"
    by code_simp
  have two: "length (evidence ?s) = 2"
    by code_simp
  have upto: "[1..2] = [1, 2 :: int]"
    by code_simp
  from evidence_is_numbered [OF run] two run upto show ?thesis
    by (auto simp: toolResponse_def)
qed

text \<open>
  C10. Take a \<^verbatim>\<open>do-while\<close> request with a stop condition and a run in which the first
  execution of the action resolves (leaving the state \<open>s1\<close>) and the evaluation of the
  condition that follows it resolves (with the value \<open>b\<close>). Whatever \<open>maxIterations\<close> is, the
  run ends with at least one action performed, at least one record and a counter of at
  least one: the cap is tested only after the first iteration. With \<open>maxIterations \<le> 1\<close>, so
  also with 0, the run returns a report with exactly one record, whether or not the
  condition was met.
\<close>

theorem do_while_runs_at_least_once:
  assumes "loop_type (loop p) = ''do-while''" and "until (loop p) = Some u"
    and "handle h p w = (r, s')"
    and "runAction h (action p) (snd (initial h w)) = (Inr (), s1)"
    and "evaluateCondition h (loop p)
           (await_sleep h 100 (record_iteration ''do-while'' (action p) s1)) = (Inr b, s2)"
  shows "1 \<le> length (actions (calls s')) \<and> 1 \<le> length (evidence s') \<and> 1 \<le> iteration s' \<and>
         (maxIterations p \<le> 1 \<longrightarrow>
            r = Inr (toolResponse p s') \<and>
            length (summary_evidence (response_summary (toolResponse p s'))) = 1 \<and>
            length (actions (calls s')) = 1)"
proof -
  let ?st = "Date_now h w" and ?s0 = "snd (initial h w)"
  from handle_run [OF assms(3)] assms(1,2) obtain r1 where
    start: "loopStart h p ?st ?s0 = (r1, s')" and
    r: "r = (case r1 of Inl e \<Rightarrow> Inl e | Inr v \<Rightarrow> Inr (toolResponse p s'))"
    by auto
  from start assms(1) have loop: "doWhileLoop h p ?st ?s0 = (r1, s')"
    by (simp add: loopStart_def)
  from doWhileBody_first [OF assms(4,5) initial_start, of ?st] obtain fl sx where
    body: "doWhileBody h p ?st ?s0 = (Inr fl, sx)" and
    sx: "iteration sx = 1" "length (evidence sx) = 1" "length (actions (calls sx)) = 1" and
    fl: "b \<or> maxIterations p \<le> 1 \<longrightarrow> fl = Break"
    by blast
  show ?thesis
  proof (cases fl)
    case Break
    with body loop have "r1 = Inr ()" "s' = sx" by (simp_all add: doWhileLoop_break)
    with r sx show ?thesis by (simp add: toolResponse_def)
  next
    case Continue
    with fl have m: "\<not> maxIterations p \<le> 1" by auto
    from Continue body loop have "doWhileLoop h p ?st sx = (r1, s')"
      by (simp add: doWhileLoop_pass)
    from doWhileLoop_grows [OF this] sx m show ?thesis by simp
  qed
qed

theorem do_while_runs_at_least_once_witness:
  "maxIterations do_while_disabled_0 = 0 \<and>
   runAction page (action do_while_disabled_0) (snd (initial page (0, 0))) =
     (Inr (), snd (runAction page (action do_while_disabled_0) (snd (initial page (0, 0))))) \<and>
   fst (evaluateCondition page (loop do_while_disabled_0)
     (await_sleep page 100 (record_iteration ''do-while'' (action do_while_disabled_0)
        (snd (runAction page (action do_while_disabled_0) (snd (initial page (0, 0)))))))) =
     Inr False \<and>
   fst (handle page do_while_disabled_0 (0, 0)) =
     Inr (toolResponse do_while_disabled_0 (snd (handle page do_while_disabled_0 (0, 0)))) \<and>
   length (evidence (snd (handle page do_while_disabled_0 (0, 0)))) = 1 \<and>
   length (actions (calls (snd (handle page do_while_disabled_0 (0, 0))))) = 1"
proof -
  let ?q = do_while_disabled_0
  let ?run = "handle page ?q (0, 0)"
  let ?s1 = "snd (runAction page (action ?q) (snd (initial page (0, 0))))"
  let ?c = "evaluateCondition page (loop ?q)
     (await_sleep page 100 (record_iteration ''do-while'' (action ?q) ?s1))"
  have spec: "loop_type (loop ?q) = ''do-while''"
    "until (loop ?q) = Some (dialog ''toBeDisabled'')"
    by (simp_all add: do_while_disabled_0_def request_def)
  have m: "maxIterations ?q = 0" by code_simp
  have run: "?run = (fst ?run, snd ?run)" by simp
  have act: "runAction page (action ?q) (snd (initial page (0, 0))) = (Inr (), ?s1)"
    by code_simp
  have c: "fst ?c = Inr False" by code_simp
  then have cond: "?c = (Inr False, snd ?c)" by (metis prod.collapse)
  from do_while_runs_at_least_once [OF spec run act cond] m act c
  show ?thesis by (simp add: toolResponse_def)
qed

end
